theory Spec2Isabelle
  imports Main
begin

section \<open>Buffer assignment for dataflow graphs (geon/util/analysis.py)\<close>

text \<open>
  The module builds a dataflow graph from the results of a computation, orders it
  topologically, computes which tensors are live at each instruction, builds the
  interference graph of the live tensors and colours it; every colour is a buffer.
  Python exceptions are values of \<open>error\<close>; a dict is a map, or an association list
  where its iteration order is read; a Python set is a HOL set where only membership
  is read, and a list without duplicates where the code iterates over it.
\<close>

datatype error = KeyError | IndexError | TypeError

subsection \<open>Tensor descriptions and buffers\<close>

text \<open>
  A tensor description carries the shape and the item size of its dtype; \<open>td_id\<close>
  stands for the identity of the Python object. The mutable attribute \<open>buffer\<close> of a
  tensor description lives in a store, a map from tensor descriptions to buffers.
  \<open>NDArray\<close> is the constant of a \<open>NumPyTensor\<close>: \<open>nd_size\<close> is numpy's \<open>size\<close>
  (the number of elements), \<open>nd_nbytes\<close> its length in bytes.
\<close>

record TensorDescription =
  td_id :: nat
  shape :: "int list"
  itemsize :: int

record NDArray =
  nd_size :: int
  nd_nbytes :: int

record Buffer =
  buf_color :: int
  buf_size :: int
  buf_data :: "NDArray option"

type_synonym store = "TensorDescription \<rightharpoonup> Buffer"

definition new_Buffer :: "int \<Rightarrow> int \<Rightarrow> Buffer" where
  "new_Buffer c s = \<lparr>buf_color = c, buf_size = s, buf_data = None\<rparr>"

text \<open>Indexing a Python list: a negative index counts from the end.\<close>

definition py_index :: "'a list \<Rightarrow> int \<Rightarrow> error + 'a" where
  "py_index xs i =
     (if 0 \<le> i \<and> i < int (length xs) then Inr (xs ! nat i)
      else if i < 0 \<and> - int (length xs) \<le> i then Inr (xs ! nat (int (length xs) + i))
      else Inl IndexError)"

subsection \<open>InterferenceGraph\<close>

text \<open>
  \<open>neighbors\<close> is the dict of neighbour sets; \<open>weights\<close> is the dict of weights with
  its iteration order, which \<open>color\<close> sorts.
\<close>

record 'a InterferenceGraph =
  neighbors :: "'a \<rightharpoonup> 'a set"
  weights :: "('a \<times> int) list"

text \<open>The neighbour set of a node, empty for a node that is no key of the dict.\<close>

definition neighbor_set :: "'a InterferenceGraph \<Rightarrow> 'a \<Rightarrow> 'a set" where
  "neighbor_set g x = (case neighbors g x of None \<Rightarrow> {} | Some N \<Rightarrow> N)"

text \<open>The keys of a dict built by a comprehension: each at its first occurrence.\<close>

fun dict_keys :: "'a list \<Rightarrow> 'a list" where
  "dict_keys [] = []"
| "dict_keys (x # xs) = x # filter (\<lambda>y. y \<noteq> x) (dict_keys xs)"

text \<open>\<open>itertools.combinations(l, 2)\<close>.\<close>

fun combinations2 :: "'a list \<Rightarrow> ('a \<times> 'a) list" where
  "combinations2 [] = []"
| "combinations2 (x # xs) = map (Pair x) xs @ combinations2 xs"

text \<open>\<open>for u, v in edges: neighbors[u].add(v); neighbors[v].add(u)\<close>\<close>

fun add_edges :: "('a \<times> 'a) list \<Rightarrow> ('a \<rightharpoonup> 'a set) \<Rightarrow> error + ('a \<rightharpoonup> 'a set)" where
  "add_edges [] nb = Inr nb"
| "add_edges ((u, v) # es) nb =
     (case nb u of None \<Rightarrow> Inl KeyError
      | Some nu \<Rightarrow>
          (let nb1 = nb(u \<mapsto> insert v nu) in
           case nb1 v of None \<Rightarrow> Inl KeyError
           | Some nv \<Rightarrow> add_edges es (nb1(v \<mapsto> insert u nv))))"

text \<open>\<open>max(1, reduce(mul, x.shape, 1)) * x.dtype.itemsize\<close>\<close>

definition weight :: "TensorDescription \<Rightarrow> int" where
  "weight x = max 1 (foldl (*) 1 (shape x)) * itemsize x"

text \<open>
  \<open>InterferenceGraph.__init__(lives)\<close>: \<open>lives\<close> is the dict from instructions to
  live sets; only its values are read.
\<close>

definition InterferenceGraph_init ::
    "('op \<times> TensorDescription list) list \<Rightarrow> error + TensorDescription InterferenceGraph" where
  "InterferenceGraph_init lives =
     (let ls = map snd lives;
          ks = dict_keys (concat ls);
          nb0 = map_of (map (\<lambda>x. (x, {})) ks);
          edges = concat (map combinations2 ls)
      in case add_edges edges nb0 of
           Inl e \<Rightarrow> Inl e
         | Inr nb \<Rightarrow> Inr \<lparr>neighbors = nb, weights = map (\<lambda>x. (x, weight x)) ks\<rparr>)"

text \<open>
  The inner loop of \<open>color\<close>, for the head \<open>u\<close> of a partition:
  \<^verbatim>\<open>for x in queue:
      if x not in N:
          S |= {x}
          N |= neighbors[x]\<close>
  \<open>N\<close> is the set object stored at \<open>neighbors[u]\<close>, and \<open>|=\<close> updates it in place: the
  model writes every new value of \<open>N\<close> back to the map at \<open>u\<close>.
\<close>

fun grow :: "'a \<Rightarrow> 'a list \<Rightarrow> 'a set \<times> 'a set \<times> ('a \<rightharpoonup> 'a set)
    \<Rightarrow> error + ('a set \<times> 'a set \<times> ('a \<rightharpoonup> 'a set))" where
  "grow u [] st = Inr st"
| "grow u (x # xs) (S, N, nb) =
     (if x \<notin> N then
        (case nb x of None \<Rightarrow> Inl KeyError
         | Some nx \<Rightarrow> grow u xs (insert x S, N \<union> nx, nb(u \<mapsto> N \<union> nx)))
      else grow u xs (S, N, nb))"

text \<open>\<open>for s in S: s.buffer = b\<close>\<close>

definition set_buffers :: "'a set \<Rightarrow> Buffer \<Rightarrow> ('a \<rightharpoonup> Buffer) \<Rightarrow> ('a \<rightharpoonup> Buffer)" where
  "set_buffers S b st = (\<lambda>t. if t \<in> S then Some b else st t)"

text \<open>
  The \<open>while queue:\<close> loop of \<open>color\<close>. The state is \<open>partitions\<close>, \<open>buffers\<close>, the
  \<open>neighbors\<close> dict and the store of the \<open>buffer\<close> attributes.
\<close>

function color_loop :: "('a \<rightharpoonup> int) \<Rightarrow> 'a list
    \<Rightarrow> 'a set list \<times> Buffer list \<times> ('a \<rightharpoonup> 'a set) \<times> ('a \<rightharpoonup> Buffer)
    \<Rightarrow> error + ('a set list \<times> Buffer list \<times> ('a \<rightharpoonup> 'a set) \<times> ('a \<rightharpoonup> Buffer))" where
  "color_loop w [] s = Inr s"
| "color_loop w (u # queue) (partitions, buffers, nb, st) =
     (case nb u of None \<Rightarrow> Inl KeyError
      | Some N \<Rightarrow>
     (case grow u queue ({u}, N, nb) of Inl e \<Rightarrow> Inl e
      | Inr (S, N', nb') \<Rightarrow>
     (let partitions' = partitions @ [S];
          c = int (length partitions') - 1
      in case w u of None \<Rightarrow> Inl KeyError
      | Some wu \<Rightarrow>
     (let buffers' = buffers @ [new_Buffer c wu]
      in case py_index buffers' c of Inl e \<Rightarrow> Inl e
      | Inr b \<Rightarrow>
          color_loop w (filter (\<lambda>x. x \<notin> S) queue)
            (partitions', buffers', nb', set_buffers S b st)))))"
  by pat_completeness auto
termination
  by (relation "measure (\<lambda>(w, q, s). length q)") (auto simp: less_Suc_eq_le)

text \<open>
  \<open>sorted(weights, key=lambda x: (weights[x], ), reverse=True)\<close>: a stable sort of the
  keys by decreasing weight (with \<open>reverse=True\<close> equal keys keep their order).
\<close>

definition sorted_queue :: "('a \<times> int) list \<Rightarrow> 'a list" where
  "sorted_queue ws = map fst (sort_key (\<lambda>p. - snd p) ws)"

text \<open>
  \<open>InterferenceGraph.color()\<close> returns \<open>(total_mem, buffers)\<close>; the model returns also
  the graph and the store as the call leaves them.
\<close>

definition color :: "'a InterferenceGraph \<Rightarrow> ('a \<rightharpoonup> Buffer)
    \<Rightarrow> error + ((int \<times> Buffer list) \<times> 'a InterferenceGraph \<times> ('a \<rightharpoonup> Buffer))" where
  "color g st =
     (case color_loop (map_of (weights g)) (sorted_queue (weights g)) ([], [], neighbors g, st) of
        Inl e \<Rightarrow> Inl e
      | Inr (partitions, buffers, nb, st') \<Rightarrow>
          Inr ((sum_list (map buf_size buffers), buffers), g\<lparr>neighbors := nb\<rparr>, st'))"

subsection \<open>Dicts and sets with an iteration order\<close>

text \<open>
  A dict whose iteration order is read is an association list with distinct keys, in
  insertion order; a set that the code iterates over is a list without duplicates.
\<close>

definition lookup :: "('k \<times> 'v) list \<Rightarrow> 'k \<Rightarrow> error + 'v" where
  "lookup d k = (case map_of d k of None \<Rightarrow> Inl KeyError | Some v \<Rightarrow> Inr v)"

text \<open>\<open>d[k] = v\<close>: a key that is present keeps its place, a new key comes last.\<close>

fun dict_set :: "'k \<Rightarrow> 'v \<Rightarrow> ('k \<times> 'v) list \<Rightarrow> ('k \<times> 'v) list" where
  "dict_set k v [] = [(k, v)]"
| "dict_set k v ((k', v') # d) = (if k' = k then (k, v) # d else (k', v') # dict_set k v d)"

text \<open>\<open>s.add(x)\<close>, \<open>a | b\<close> and \<open>a - b\<close> on sets.\<close>

definition set_add :: "'a \<Rightarrow> 'a list \<Rightarrow> 'a list" where
  "set_add x xs = (if x \<in> set xs then xs else xs @ [x])"

definition set_union :: "'a list \<Rightarrow> 'a list \<Rightarrow> 'a list" where
  "set_union xs ys = xs @ filter (\<lambda>y. y \<notin> set xs) ys"

definition set_diff :: "'a list \<Rightarrow> 'a list \<Rightarrow> 'a list" where
  "set_diff xs ys = filter (\<lambda>x. x \<notin> set ys) xs"

text \<open>A loop whose body may raise.\<close>

fun foldM :: "('a \<Rightarrow> 's \<Rightarrow> error + 's) \<Rightarrow> 'a list \<Rightarrow> 's \<Rightarrow> error + 's" where
  "foldM f [] s = Inr s"
| "foldM f (x # xs) s = (case f x s of Inl e \<Rightarrow> Inl e | Inr s' \<Rightarrow> foldM f xs s')"

text \<open>
  A loop whose body may raise or may not return: \<open>None\<close> is a call that does not
  return (the recursion of \<open>dfs\<close> on a graph with a cycle).
\<close>

fun for_each :: "('a \<Rightarrow> 's \<Rightarrow> (error + 's) option) \<Rightarrow> 'a list \<Rightarrow> 's \<Rightarrow> (error + 's) option" where
  "for_each body [] s = Some (Inr s)"
| "for_each body (x # xs) s =
     (case body x s of
        None \<Rightarrow> None
      | Some (Inl e) \<Rightarrow> Some (Inl e)
      | Some (Inr s') \<Rightarrow> for_each body xs s')"

subsection \<open>Digraph\<close>

text \<open>
  The graph is its \<open>successors\<close> dict, from each node to the set of its users. Nodes are
  sorted by the key \<open>idf\<close>, their \<open>id\<close>.
\<close>

type_synonym 'a adjacency = "('a \<times> 'a list) list"

text \<open>
  \<open>Digraph._invert\<close>:
  \<^verbatim>\<open>result = {x: set() for x in list(adjacency.keys())}
  for x, others in list(adjacency.items()):
      for y in others:
          result[y].add(x)\<close>
\<close>

definition invert_add :: "'a \<Rightarrow> 'a \<Rightarrow> 'a adjacency \<Rightarrow> error + 'a adjacency" where
  "invert_add x y result =
     (case lookup result y of Inl e \<Rightarrow> Inl e | Inr s \<Rightarrow> Inr (dict_set y (set_add x s) result))"

definition invert :: "'a adjacency \<Rightarrow> error + 'a adjacency" where
  "invert adjacency =
     foldM (\<lambda>(x, others). foldM (invert_add x) others) adjacency
       (map (\<lambda>x. (x, [])) (map fst adjacency))"

text \<open>\<open>Digraph.inputs\<close>: the nodes without predecessor.\<close>

definition inputs :: "'a adjacency \<Rightarrow> error + 'a list" where
  "inputs successors =
     (case invert successors of
        Inl e \<Rightarrow> Inl e
      | Inr predecessors \<Rightarrow> Inr (map fst (filter (\<lambda>(u, vs). length vs = 0) predecessors)))"

text \<open>
  The local function \<open>visit\<close> of \<open>Digraph.dfs\<close>:
  \<^verbatim>\<open>def visit(u, fun):
      if u not in visited:
          vs = self.successors[u]
          for v in sorted(vs, key=lambda x: x.id):
              if v not in visited:
                  visit(v, fun)
          fun(u)
          visited.add(u)\<close>
  The state is the set \<open>visited\<close> and the state \<open>s\<close> that \<open>fun\<close> changes. The first
  argument bounds the depth of the recursion.
\<close>

fun visit :: "nat \<Rightarrow> ('a \<Rightarrow> 'k::linorder) \<Rightarrow> 'a adjacency \<Rightarrow> ('a \<Rightarrow> 's \<Rightarrow> 's) \<Rightarrow> 'a
    \<Rightarrow> 'a set \<times> 's \<Rightarrow> (error + 'a set \<times> 's) option" where
  "visit 0 idf successors f u st = None"
| "visit (Suc n) idf successors f u st =
     (if u \<notin> fst st then
        (case lookup successors u of
           Inl e \<Rightarrow> Some (Inl e)
         | Inr vs \<Rightarrow>
            (case for_each
                    (\<lambda>v st'. if v \<notin> fst st' then visit n idf successors f v st' else Some (Inr st'))
                    (sort_key idf vs) st of
               None \<Rightarrow> None
             | Some (Inl e) \<Rightarrow> Some (Inl e)
             | Some (Inr (visited, s)) \<Rightarrow> Some (Inr (insert u visited, f u s))))
      else Some (Inr st))"

text \<open>\<open>Digraph.dfs\<close>: \<open>for x in sorted(self.inputs, key=lambda x: x.id): visit(x, fun)\<close>\<close>

definition dfs :: "nat \<Rightarrow> ('a \<Rightarrow> 'k::linorder) \<Rightarrow> 'a adjacency \<Rightarrow> ('a \<Rightarrow> 's \<Rightarrow> 's) \<Rightarrow> 's
    \<Rightarrow> (error + 's) option" where
  "dfs fuel idf successors f s =
     (case inputs successors of
        Inl e \<Rightarrow> Some (Inl e)
      | Inr ins \<Rightarrow>
         (case for_each (visit fuel idf successors f) (sort_key idf ins) ({}, s) of
            None \<Rightarrow> None
          | Some (Inl e) \<Rightarrow> Some (Inl e)
          | Some (Inr (visited, s')) \<Rightarrow> Some (Inr s')))"

text \<open>\<open>Digraph.topsort\<close>: \<open>self.dfs(lambda x: result.insert(0, x))\<close>\<close>

definition topsort :: "nat \<Rightarrow> ('a \<Rightarrow> 'k::linorder) \<Rightarrow> 'a adjacency \<Rightarrow> (error + 'a list) option" where
  "topsort fuel idf successors = dfs fuel idf successors (\<lambda>x result. x # result) []"

text \<open>The edges of a successors dict, and the place of two nodes in a list.\<close>

definition edge_set :: "'a adjacency \<Rightarrow> ('a \<times> 'a) set" where
  "edge_set successors = {(v, w). \<exists>ws. (v, ws) \<in> set successors \<and> w \<in> set ws}"

fun precedes :: "'a \<Rightarrow> 'a \<Rightarrow> 'a list \<Rightarrow> bool" where
  "precedes v w [] = False"
| "precedes v w (x # xs) = (if x = v then w \<in> set xs else precedes v w xs)"

subsection \<open>Operations\<close>

text \<open>
  The nodes of the operation graph come from \<open>geon.op_graph\<close>. An op has its \<open>id\<close>, its
  \<open>args\<close>, its \<open>initializers\<close>, its \<open>tags\<close> and its tensor description (for the one
  transformer of the call); \<open>nptensor\<close> is the array of an op that is a \<open>NumPyTensor\<close>,
  \<open>is_ComputationOp\<close> says whether it is an instance of \<open>ComputationOp\<close>. The
  arguments of an op are built before the op, so they form no cycle.
\<close>

datatype Op = Op (op_id: nat) (args: "Op list") (initializers: "Op list") (tags: "string list")
    (tensor_description: TensorDescription) (nptensor: "NDArray option") (is_ComputationOp: bool)

text \<open>
  What the analysis reads of a node, whatever its class. \<open>n_defs\<close> is the attribute
  \<open>defs\<close> of a node: the ops whose tensors the node defines.
\<close>

record 'n node_ops =
  n_id :: "'n \<Rightarrow> nat"
  n_args :: "'n \<Rightarrow> 'n list"
  n_defs :: "'n \<Rightarrow> 'n list"
  n_tags :: "'n \<Rightarrow> string list"
  n_td :: "'n \<Rightarrow> TensorDescription"
  n_initializers :: "'n \<Rightarrow> 'n list"
  n_nptensor :: "'n \<Rightarrow> NDArray option"

text \<open>
  The attributes of an \<open>Op\<close>. The attribute \<open>defs\<close> is set in \<open>geon.op_graph\<close>, which
  is not part of the sources at hand: it is a parameter.
\<close>

definition Op_ops :: "(Op \<Rightarrow> Op list) \<Rightarrow> Op node_ops" where
  "Op_ops defs = \<lparr>n_id = op_id, n_args = args, n_defs = defs, n_tags = tags,
     n_td = tensor_description, n_initializers = initializers, n_nptensor = nptensor\<rparr>"

subsection \<open>DataFlowGraph\<close>

record 'n DataFlowGraph =
  successors :: "'n adjacency"
  results :: "'n list"

text \<open>
  \<open>successors\<close> is a \<open>defaultdict(set)\<close>: reading a missing key adds it with an empty
  set. \<open>touch\<close> is \<open>self.successors[w] |= set()\<close>, \<open>add_successor\<close> is
  \<open>self.successors[v].add(w)\<close>.
\<close>

definition touch :: "'a \<Rightarrow> 'a adjacency \<Rightarrow> 'a adjacency" where
  "touch w d = (case map_of d w of None \<Rightarrow> d @ [(w, [])] | Some s \<Rightarrow> d)"

definition add_successor :: "'a \<Rightarrow> 'a \<Rightarrow> 'a adjacency \<Rightarrow> 'a adjacency" where
  "add_successor v w d =
     (case map_of d v of None \<Rightarrow> d @ [(v, [w])] | Some s \<Rightarrow> dict_set v (set_add w s) d)"

text \<open>
  \<open>DataFlowGraph._fill_successors\<close>:
  \<^verbatim>\<open>for w in results:
      self.successors[w] |= set()
      for v in w.args:
          self.successors[v].add(w)
          self._fill_successors({v})\<close>
\<close>

function fill_successors :: "Op list \<Rightarrow> Op adjacency \<Rightarrow> Op adjacency" where
  "fill_successors [] d = d"
| "fill_successors (w # ws) d =
     fill_successors ws
       (fold (\<lambda>v d'. fill_successors [v] (add_successor v w d')) (args w) (touch w d))"
  by pat_completeness auto
lemma size_args: "v \<in> set (args w) \<Longrightarrow> size v < size w"
proof -
  assume "v \<in> set (args w)"
  then have "size v \<le> size_list size (args w)" by (simp add: size_list_estimation')
  then show "size v < size w" by (cases w) simp
qed

termination fill_successors
  by (relation "measure (\<lambda>(ws, d). size_list size ws)") (auto dest: size_args)

text \<open>
  The arguments of a Python call. \<open>DataFlowGraph.__init__(self, transformer, results)\<close>
  takes two of them; a call with another number raises \<open>TypeError\<close>, and so does a
  \<open>results\<close> that cannot be iterated.
\<close>

datatype pyval = Transformer | Results "Op list"

definition DataFlowGraph_init :: "pyval list \<Rightarrow> error + Op DataFlowGraph" where
  "DataFlowGraph_init argv =
     (case argv of
        [transformer, rs] \<Rightarrow>
          (case rs of
             Results rl \<Rightarrow> Inr \<lparr>successors = fill_successors rl [], results = rl\<rparr>
           | Transformer \<Rightarrow> Inl TypeError)
      | _ \<Rightarrow> Inl TypeError)"

text \<open>\<open>DataFlowGraph.instructions\<close>\<close>

definition instructions :: "nat \<Rightarrow> 'n node_ops \<Rightarrow> 'n DataFlowGraph \<Rightarrow> (error + 'n list) option" where
  "instructions fuel A dfg = topsort fuel (n_id A) (successors dfg)"

text \<open>
  \<open>DataFlowGraph.liveness\<close>. A set comprehension is \<open>dict_keys\<close> of the list of its
  values; \<open>dict((op, set()) for op in order)\<close> sets the keys one after the other.
\<close>

definition can_do_inplace :: "'n \<Rightarrow> bool" where
  "can_do_inplace x = False"

definition uses :: "'n node_ops \<Rightarrow> 'n \<Rightarrow> TensorDescription list" where
  "uses A op = dict_keys (map (n_td A) (n_args A op))"

text \<open>
  \<^verbatim>\<open>use = {x.tensor_description(self.transformer) for x in current.args}
  defs = {x.tensor_description(self.transformer) for x in current.defs}
  liveness[previous] = use | (liveness[current] - defs)\<close>
\<close>

definition liveness_step :: "'n node_ops \<Rightarrow> 'n \<times> 'n \<Rightarrow> ('n \<times> TensorDescription list) list
    \<Rightarrow> error + ('n \<times> TensorDescription list) list" where
  "liveness_step A cp liveness =
     (case cp of (current, previous) \<Rightarrow>
        (let use = uses A current;
             defs = dict_keys (map (n_td A) (n_defs A current))
         in case lookup liveness current of
              Inl e \<Rightarrow> Inl e
            | Inr lc \<Rightarrow> Inr (dict_set previous (set_union use (set_diff lc defs)) liveness)))"

text \<open>
  \<^verbatim>\<open>for op in order:
      if not can_do_inplace(op):
          liveness[op] |= {x.tensor_description(self.transformer) for x in op.args}\<close>
\<close>

definition liveness_inplace :: "'n node_ops \<Rightarrow> 'n \<Rightarrow> ('n \<times> TensorDescription list) list
    \<Rightarrow> error + ('n \<times> TensorDescription list) list" where
  "liveness_inplace A op liveness =
     (if \<not> can_do_inplace op then
        (case lookup liveness op of
           Inl e \<Rightarrow> Inl e
         | Inr s \<Rightarrow> Inr (dict_set op (set_union s (uses A op)) liveness))
      else Inr liveness)"

definition liveness_of_order :: "'n node_ops \<Rightarrow> 'n DataFlowGraph \<Rightarrow> 'n list
    \<Rightarrow> error + ('n \<times> TensorDescription list) list" where
  "liveness_of_order A dfg order =
     (let liveness = fold (\<lambda>op d. dict_set op [] d) order [];
          persistent = dict_keys (map (n_td A)
             (filter (\<lambda>x. ''persistent'' \<in> set (n_tags A x)) (map fst (successors dfg))));
          results_td = dict_keys (map (n_td A) (results dfg))
      in case py_index order (- 1) of
           Inl e \<Rightarrow> Inl e
         | Inr last_op \<Rightarrow>
            (case foldM (liveness_step A) (rev (zip (tl order) (butlast order)))
                    (dict_set last_op (set_union results_td persistent) liveness) of
               Inl e \<Rightarrow> Inl e
             | Inr liveness' \<Rightarrow> foldM (liveness_inplace A) order liveness'))"

definition liveness :: "nat \<Rightarrow> 'n node_ops \<Rightarrow> 'n DataFlowGraph
    \<Rightarrow> (error + ('n \<times> TensorDescription list) list) option" where
  "liveness fuel A dfg =
     (case instructions fuel A dfg of
        None \<Rightarrow> None
      | Some (Inl e) \<Rightarrow> Some (Inl e)
      | Some (Inr order) \<Rightarrow> Some (liveness_of_order A dfg order))"

subsection \<open>KernelFlowGraph\<close>

text \<open>
  A node of the fused graph is an op, or a \<open>Function\<close> made of the sub-graph of a
  cluster (\<open>Function(y)\<close>, with \<open>y\<close> a dict from ops to sets of ops).
\<close>

datatype KNode = Plain Op | Function "Op adjacency"

text \<open>
  \<open>d[k]\<close> on a \<open>defaultdict(set)\<close> (\<open>dflt\<close>) or on a plain dict, \<open>d.pop(k, set())\<close>
  and \<open>s.remove(x)\<close>.
\<close>

definition dict_get :: "bool \<Rightarrow> ('k \<times> 'v list) list \<Rightarrow> 'k \<Rightarrow> error + 'v list" where
  "dict_get dflt d k =
     (case map_of d k of None \<Rightarrow> if dflt then Inr [] else Inl KeyError | Some v \<Rightarrow> Inr v)"

definition dict_pop :: "'k \<Rightarrow> ('k \<times> 'v) list \<Rightarrow> ('k \<times> 'v) list" where
  "dict_pop k d = filter (\<lambda>kv. fst kv \<noteq> k) d"

definition set_remove :: "'a \<Rightarrow> 'a list \<Rightarrow> 'a list" where
  "set_remove x xs = filter (\<lambda>y. y \<noteq> x) xs"

text \<open>
  The body of the inner loop of \<open>KernelFlowGraph._compute_paths\<close>:
  \<^verbatim>\<open>path_from[v] |= path_from[w]
  if self.fusible(v, w):
      bad_path_from[v] |= bad_path_from[w]
  else:
      bad_path_from[v] |= path_from[w]\<close>
\<close>

definition paths_edge :: "('a \<Rightarrow> 'a \<Rightarrow> bool) \<Rightarrow> 'a \<Rightarrow> 'a \<Rightarrow> 'a adjacency \<times> 'a adjacency
    \<Rightarrow> error + 'a adjacency \<times> 'a adjacency" where
  "paths_edge fusible v w pb =
     (case pb of (path_from, bad_path_from) \<Rightarrow>
        (case lookup path_from v of Inl e \<Rightarrow> Inl e | Inr pv \<Rightarrow>
        (case lookup path_from w of Inl e \<Rightarrow> Inl e | Inr pw \<Rightarrow>
        (let path_from' = dict_set v (set_union pv pw) path_from
         in case lookup bad_path_from v of Inl e \<Rightarrow> Inl e | Inr bv \<Rightarrow>
            (case lookup (if fusible v w then bad_path_from else path_from') w of
               Inl e \<Rightarrow> Inl e
             | Inr other \<Rightarrow> Inr (path_from', dict_set v (set_union bv other) bad_path_from))))))"

text \<open>
  \<open>KernelFlowGraph._compute_paths\<close>:
  \<^verbatim>\<open>order = self.topsort()
  for v in reversed(order):
      path_from[v] = {v}
      bad_path_from[v] = set()
      for w in self.successors[v]: ...\<close>
\<close>

definition compute_paths :: "nat \<Rightarrow> ('a \<Rightarrow> nat) \<Rightarrow> ('a \<Rightarrow> 'a \<Rightarrow> bool) \<Rightarrow> 'a adjacency
    \<Rightarrow> (error + 'a adjacency \<times> 'a adjacency) option" where
  "compute_paths fuel idf fusible succs =
     (case topsort fuel idf succs of
        None \<Rightarrow> None
      | Some (Inl e) \<Rightarrow> Some (Inl e)
      | Some (Inr order) \<Rightarrow>
          Some (foldM
            (\<lambda>v pb. case dict_get True succs v of
                       Inl e \<Rightarrow> Inl e
                     | Inr ws \<Rightarrow> foldM (paths_edge fusible v) ws
                         (dict_set v [v] (fst pb), dict_set v [] (snd pb)))
            (rev order) ([], [])))"

text \<open>\<open>{y for y in self.successors[x] if w in path_from[y]}\<close>\<close>

fun reaching :: "'a adjacency \<Rightarrow> 'a \<Rightarrow> 'a list \<Rightarrow> error + 'a list" where
  "reaching path_from w [] = Inr []"
| "reaching path_from w (y # ys) =
     (case lookup path_from y of
        Inl e \<Rightarrow> Inl e
      | Inr p \<Rightarrow>
         (case reaching path_from w ys of
            Inl e \<Rightarrow> Inl e
          | Inr r \<Rightarrow> Inr (if w \<in> set p then y # r else r)))"

text \<open>
  The loop of \<open>KernelFlowGraph.between\<close>:
  \<^verbatim>\<open>while worklist:
      x = worklist.pop()
      if x != w:
          worklist |= {y for y in self.successors[x] if w in path_from[y]}
      vertices |= {x}\<close>
  \<open>pop\<close> takes some element of the set, here the first. The first argument bounds the
  number of rounds.
\<close>

fun between_loop :: "nat \<Rightarrow> 'a adjacency \<Rightarrow> 'a adjacency \<Rightarrow> 'a \<Rightarrow> 'a list \<Rightarrow> 'a list
    \<Rightarrow> (error + 'a list) option" where
  "between_loop 0 succs path_from w worklist vertices = None"
| "between_loop (Suc n) succs path_from w worklist vertices =
     (case worklist of
        [] \<Rightarrow> Some (Inr vertices)
      | x # rest \<Rightarrow>
         (if x \<noteq> w then
            (case dict_get True succs x of
               Inl e \<Rightarrow> Some (Inl e)
             | Inr ys \<Rightarrow>
                (case reaching path_from w ys of
                   Inl e \<Rightarrow> Some (Inl e)
                 | Inr new \<Rightarrow>
                     between_loop n succs path_from w (set_union rest new) (set_add x vertices)))
          else between_loop n succs path_from w rest (set_add x vertices)))"

definition between :: "nat \<Rightarrow> 'a adjacency \<Rightarrow> 'a \<Rightarrow> 'a \<Rightarrow> 'a adjacency \<Rightarrow> (error + 'a list) option" where
  "between fuel succs v w path_from =
     (case dict_get True succs v of
        Inl e \<Rightarrow> Some (Inl e)
      | Inr xs \<Rightarrow>
         (case reaching path_from w xs of
            Inl e \<Rightarrow> Some (Inl e)
          | Inr new \<Rightarrow> between_loop fuel succs path_from w (set_union [w] new) []))"

text \<open>
  \<open>KernelFlowGraph.transfer_edges(v, w, dct)\<close>:
  \<^verbatim>\<open>dct[v] |= dct.pop(w, set()) - {v}
  for node, connected in list(dct.items()):
      if w in connected:
          connected.remove(w)
          if node != v:
              connected.add(v)\<close>
  \<open>dflt\<close> says whether \<open>dct\<close> is a \<open>defaultdict\<close>.
\<close>

definition transfer_edges :: "bool \<Rightarrow> 'a \<Rightarrow> 'a \<Rightarrow> 'a adjacency \<Rightarrow> error + 'a adjacency" where
  "transfer_edges dflt v w dct =
     (case dict_get dflt dct v of
        Inl e \<Rightarrow> Inl e
      | Inr cur \<Rightarrow>
         (let popped = (case map_of dct w of None \<Rightarrow> [] | Some s \<Rightarrow> s);
              dct' = dict_set v (set_union cur (set_diff popped [v])) (dict_pop w dct)
          in Inr (map (\<lambda>nc. if w \<in> set (snd nc)
                        then (fst nc, if fst nc \<noteq> v then set_add v (set_remove w (snd nc))
                                      else set_remove w (snd nc))
                        else nc) dct')))"

text \<open>
  \<^verbatim>\<open>edges = {(a, b) for a, _ in successors.items() for b in _}
  edges = sorted(edges, key=lambda x: (x[0].id, x[1].id))\<close>
  The sort by the pair of ids is a stable sort by the second id followed by a stable
  sort by the first.
\<close>

definition sorted_edges :: "('a \<Rightarrow> nat) \<Rightarrow> 'a adjacency \<Rightarrow> ('a \<times> 'a) list" where
  "sorted_edges idf succs =
     sort_key (\<lambda>e. idf (fst e)) (sort_key (\<lambda>e. idf (snd e))
       (dict_keys (concat (map (\<lambda>ab. map (Pair (fst ab)) (snd ab)) succs))))"

text \<open>
  The body of \<open>for x in to_merge\<close>:
  \<^verbatim>\<open>clusters[v] |= clusters.pop(x)
  self.transfer_edges(v, x, successors)
  self.transfer_edges(v, x, path_from)
  self.transfer_edges(v, x, bad_path_from)\<close>
\<close>

definition merge_into :: "'a \<Rightarrow> 'a \<Rightarrow> 'a adjacency \<times> 'a adjacency \<times> 'a adjacency \<times> 'a adjacency
    \<Rightarrow> error + 'a adjacency \<times> 'a adjacency \<times> 'a adjacency \<times> 'a adjacency" where
  "merge_into v x st =
     (case st of (clusters, succs, path_from, bad_path_from) \<Rightarrow>
        (case lookup clusters v of Inl e \<Rightarrow> Inl e | Inr cv \<Rightarrow>
        (case lookup clusters x of Inl e \<Rightarrow> Inl e | Inr cx \<Rightarrow>
        (case transfer_edges True v x succs of Inl e \<Rightarrow> Inl e | Inr succs' \<Rightarrow>
        (case transfer_edges False v x path_from of Inl e \<Rightarrow> Inl e | Inr path_from' \<Rightarrow>
        (case transfer_edges False v x bad_path_from of Inl e \<Rightarrow> Inl e | Inr bad_path_from' \<Rightarrow>
           Inr (dict_set v (set_union cv cx) (dict_pop x clusters), succs', path_from',
                bad_path_from')))))))"

text \<open>
  The \<open>while edges:\<close> loop of \<open>KernelFlowGraph.__init__\<close>:
  \<^verbatim>\<open>v, w = edges.pop()
  if w in bad_path_from[v]:
      continue
  to_merge = self.between(v, w, path_from)
  for x in to_merge: ...
  edges = ... sorted(edges, ...)\<close>
  The first argument bounds the number of rounds, the second the rounds of \<open>between\<close>.
\<close>

fun fuse_loop :: "nat \<Rightarrow> nat \<Rightarrow> ('a \<Rightarrow> nat) \<Rightarrow> ('a \<times> 'a) list
    \<Rightarrow> 'a adjacency \<times> 'a adjacency \<times> 'a adjacency \<times> 'a adjacency
    \<Rightarrow> (error + 'a adjacency \<times> 'a adjacency) option" where
  "fuse_loop 0 fuel idf edges st = None"
| "fuse_loop (Suc n) fuel idf edges st =
     (if edges = [] then Some (Inr (fst st, fst (snd st)))
      else
        (let v = fst (last edges); w = snd (last edges)
         in case lookup (snd (snd (snd st))) v of
              Inl e \<Rightarrow> Some (Inl e)
            | Inr bv \<Rightarrow>
               (if w \<in> set bv then fuse_loop n fuel idf (butlast edges) st
                else
                  (case between fuel (fst (snd st)) v w (fst (snd (snd st))) of
                     None \<Rightarrow> None
                   | Some (Inl e) \<Rightarrow> Some (Inl e)
                   | Some (Inr to_merge) \<Rightarrow>
                      (case foldM (merge_into v) to_merge st of
                         Inl e \<Rightarrow> Some (Inl e)
                       | Inr st' \<Rightarrow>
                           fuse_loop n fuel idf (sorted_edges idf (fst (snd st'))) st')))))"

text \<open>
  \<^verbatim>\<open>extract_subgraph = lambda R: dict(
      (a, b & R) for a, b in list(dataflow.successors.items()) if a in R)\<close>
\<close>

definition extract_subgraph :: "'a adjacency \<Rightarrow> 'a list \<Rightarrow> 'a adjacency" where
  "extract_subgraph dsuccs R =
     map (\<lambda>ab. (fst ab, filter (\<lambda>y. y \<in> set R) (snd ab)))
       (filter (\<lambda>ab. fst ab \<in> set R) dsuccs)"

text \<open>
  \<^verbatim>\<open>clusters = {x: extract_subgraph(y) for x, y in list(clusters.items())}
  clusters = {x: Function(y) if isinstance(x, ComputationOp) else x
              for x, y in list(clusters.items())}\<close>
\<close>

definition wrap_clusters :: "Op adjacency \<Rightarrow> Op adjacency \<Rightarrow> (Op \<times> KNode) list" where
  "wrap_clusters dsuccs clusters =
     map (\<lambda>xy. (fst xy, if is_ComputationOp (fst xy) then Function (snd xy) else Plain (fst xy)))
       (map (\<lambda>xy. (fst xy, extract_subgraph dsuccs (snd xy))) clusters)"

text \<open>
  \<^verbatim>\<open>self.successors = {clusters[a]: {clusters[b] for b in lst}
                     for a, lst in list(successors.items())}\<close>
\<close>

fun lookup_all :: "('k \<times> 'v) list \<Rightarrow> 'k list \<Rightarrow> error + 'v list" where
  "lookup_all d [] = Inr []"
| "lookup_all d (k # ks) =
     (case lookup d k of
        Inl e \<Rightarrow> Inl e
      | Inr v \<Rightarrow> (case lookup_all d ks of Inl e \<Rightarrow> Inl e | Inr vs \<Rightarrow> Inr (v # vs)))"

definition fused_successors :: "(Op \<times> KNode) list \<Rightarrow> Op adjacency \<Rightarrow> error + KNode adjacency" where
  "fused_successors clusters succs =
     foldM (\<lambda>al d. case lookup clusters (fst al) of
                      Inl e \<Rightarrow> Inl e
                    | Inr ka \<Rightarrow>
                       (case lookup_all clusters (snd al) of
                          Inl e \<Rightarrow> Inl e
                        | Inr kbs \<Rightarrow> Inr (dict_set ka (dict_keys kbs) d)))
       succs []"

text \<open>
  The body of \<open>KernelFlowGraph.__init__(self, dataflow, fusible)\<close> after the call of
  the constructor of \<open>DataFlowGraph\<close>, which leaves \<open>self.successors\<close> and
  \<open>self.results\<close>.
\<close>

definition fuse :: "nat \<Rightarrow> (Op \<Rightarrow> Op \<Rightarrow> bool) \<Rightarrow> Op DataFlowGraph \<Rightarrow> Op DataFlowGraph
    \<Rightarrow> (error + KNode DataFlowGraph) option" where
  "fuse fuel fusible dataflow self =
     (case compute_paths fuel op_id fusible (successors self) of
        None \<Rightarrow> None
      | Some (Inl e) \<Rightarrow> Some (Inl e)
      | Some (Inr (path_from, bad_path_from)) \<Rightarrow>
         (let edges = sorted_edges op_id (successors self);
              clusters = fold (\<lambda>x d. dict_set x [x] d)
                 (concat (map (\<lambda>e. [fst e, snd e]) edges)) []
          in case fuse_loop fuel fuel op_id edges
                  (clusters, successors self, path_from, bad_path_from) of
               None \<Rightarrow> None
             | Some (Inl e) \<Rightarrow> Some (Inl e)
             | Some (Inr (clusters', succs')) \<Rightarrow>
                (case fused_successors (wrap_clusters (successors dataflow) clusters') succs' of
                   Inl e \<Rightarrow> Some (Inl e)
                 | Inr ksuccs \<Rightarrow>
                     Some (Inr \<lparr>successors = ksuccs, results = map Plain (results self)\<rparr>))))"

text \<open>
  \<open>KernelFlowGraph.__init__\<close> begins with
  \<open>super(KernelFlowGraph, self).__init__(dataflow.results)\<close>: the constructor of
  \<open>DataFlowGraph\<close> called with one argument.
\<close>

definition KernelFlowGraph_init :: "nat \<Rightarrow> Op DataFlowGraph \<Rightarrow> (Op \<Rightarrow> Op \<Rightarrow> bool)
    \<Rightarrow> (error + KNode DataFlowGraph) option" where
  "KernelFlowGraph_init fuel dataflow fusible =
     (case DataFlowGraph_init [Results (results dataflow)] of
        Inl e \<Rightarrow> Some (Inl e)
      | Inr self \<Rightarrow> fuse fuel fusible dataflow self)"

subsection \<open>assign\_buffers\<close>

text \<open>
  \<open>bind_initializers(transformer, ops)\<close>. The attribute \<open>buffer\<close> of a tensor
  description is \<open>None\<close> until it is assigned.
  \<^verbatim>\<open>for op in ops:
      buffer = op.tensor_description(transformer).buffer
      for i in op.initializers:
          i.tensor_description(transformer).buffer = buffer
          for a in i.args:
              if isinstance(a, NumPyTensor):
                  a.tensor_description(transformer).buffer = Buffer(-1, a.nptensor.size)
                  a.tensor_description(transformer).buffer.data = a.nptensor\<close>
\<close>

definition bind_numpy :: "'n node_ops \<Rightarrow> 'n \<Rightarrow> store \<Rightarrow> store" where
  "bind_numpy A a st =
     (case n_nptensor A a of
        None \<Rightarrow> st
      | Some arr \<Rightarrow> st(n_td A a \<mapsto> (new_Buffer (- 1) (nd_size arr))\<lparr>buf_data := Some arr\<rparr>))"

definition bind_initializer :: "'n node_ops \<Rightarrow> Buffer option \<Rightarrow> 'n \<Rightarrow> store \<Rightarrow> store" where
  "bind_initializer A buffer i st = fold (bind_numpy A) (n_args A i) (st(n_td A i := buffer))"

definition bind_initializers :: "'n node_ops \<Rightarrow> 'n list \<Rightarrow> store \<Rightarrow> store" where
  "bind_initializers A ops st =
     fold (\<lambda>op st'. fold (bind_initializer A (st' (n_td A op))) (n_initializers A op) st') ops st"

text \<open>
  The loop that sets the styles reads \<open>cmap[tensor.buffer.color]\<close> for every op whose
  tensor description has a buffer; \<open>cmap\<close> has one entry for each buffer.
\<close>

definition set_styles :: "Op list \<Rightarrow> nat \<Rightarrow> store \<Rightarrow> error + unit" where
  "set_styles all_ops n st =
     foldM (\<lambda>op u. case st (tensor_description op) of
                      None \<Rightarrow> Inr ()
                    | Some b \<Rightarrow> (case py_index [0..<n] (buf_color b) of
                                   Inl e \<Rightarrow> Inl e | Inr c \<Rightarrow> Inr ()))
       all_ops ()"

text \<open>
  The part of \<open>assign_buffers\<close> that follows the choice of the graph:
  \<^verbatim>\<open>ifg = InterferenceGraph(dfg.liveness())
  memory, buffers = ifg.color()
  bind_initializers(transformer, dfg.inputs)
  cmap = _random_colors(len(buffers), .5)
  for op in all_ops: ...
  return dfg, memory\<close>
\<close>

definition allocate :: "nat \<Rightarrow> 'n node_ops \<Rightarrow> Op list \<Rightarrow> 'n DataFlowGraph \<Rightarrow> store
    \<Rightarrow> (error + ('n DataFlowGraph \<times> int) \<times> store) option" where
  "allocate fuel A all_ops dfg st =
     (case liveness fuel A dfg of
        None \<Rightarrow> None
      | Some (Inl e) \<Rightarrow> Some (Inl e)
      | Some (Inr lives) \<Rightarrow>
         (case InterferenceGraph_init lives of
            Inl e \<Rightarrow> Some (Inl e)
          | Inr ifg \<Rightarrow>
             (case color ifg st of
                Inl e \<Rightarrow> Some (Inl e)
              | Inr ((memory, buffers), ifg', st') \<Rightarrow>
                 (case inputs (successors dfg) of
                    Inl e \<Rightarrow> Some (Inl e)
                  | Inr ins \<Rightarrow>
                     (let st'' = bind_initializers A ins st'
                      in case set_styles all_ops (length buffers) st'' of
                           Inl e \<Rightarrow> Some (Inl e)
                         | Inr u \<Rightarrow> Some (Inr ((dfg, memory), st'')))))))"

text \<open>
  \<open>assign_buffers(transformer, results, fusible=None)\<close>. The attributes of the nodes
  come from \<open>geon.op_graph\<close>: \<open>defs\<close> gives the attribute \<open>defs\<close> of an op, \<open>K\<close> the
  attributes of the nodes of a fused graph. The result is the graph, which is a
  \<open>DataFlowGraph\<close> or a \<open>KernelFlowGraph\<close>, the memory and the store.
\<close>

definition assign_buffers :: "nat \<Rightarrow> (Op \<Rightarrow> Op list) \<Rightarrow> KNode node_ops \<Rightarrow> Op list
    \<Rightarrow> (Op \<Rightarrow> Op \<Rightarrow> bool) option \<Rightarrow> store
    \<Rightarrow> (error + ((Op DataFlowGraph + KNode DataFlowGraph) \<times> int) \<times> store) option" where
  "assign_buffers fuel defs K rs fusible st =
     (case DataFlowGraph_init [Transformer, Results rs] of
        Inl e \<Rightarrow> Some (Inl e)
      | Inr dfg \<Rightarrow>
         (let all_ops = map fst (successors dfg)
          in case fusible of
               None \<Rightarrow>
                 (case allocate fuel (Op_ops defs) all_ops dfg st of
                    None \<Rightarrow> None
                  | Some (Inl e) \<Rightarrow> Some (Inl e)
                  | Some (Inr ((g, memory), st')) \<Rightarrow> Some (Inr ((Inl g, memory), st')))
             | Some f \<Rightarrow>
                 (case KernelFlowGraph_init fuel dfg f of
                    None \<Rightarrow> None
                  | Some (Inl e) \<Rightarrow> Some (Inl e)
                  | Some (Inr kfg) \<Rightarrow>
                     (case allocate fuel K all_ops kfg st of
                        None \<Rightarrow> None
                      | Some (Inl e) \<Rightarrow> Some (Inl e)
                      | Some (Inr ((g, memory), st')) \<Rightarrow> Some (Inr ((Inr g, memory), st'))))))"

subsection \<open>Example data\<close>

text \<open>
  Four tensor descriptions of weights 4, 3, 2 and 1, and a liveness mapping of two
  instructions: \<open>tA\<close> and \<open>tB\<close> are live together, and so are \<open>tC\<close> and \<open>tD\<close>.
\<close>

definition tA :: TensorDescription where "tA = \<lparr>td_id = 0, shape = [4], itemsize = 1\<rparr>"
definition tB :: TensorDescription where "tB = \<lparr>td_id = 1, shape = [3], itemsize = 1\<rparr>"
definition tC :: TensorDescription where "tC = \<lparr>td_id = 2, shape = [2], itemsize = 1\<rparr>"
definition tD :: TensorDescription where "tD = \<lparr>td_id = 3, shape = [1], itemsize = 1\<rparr>"

definition ex_lives :: "(nat \<times> TensorDescription list) list" where
  "ex_lives = [(0, [tA, tB]), (1, [tC, tD])]"

text \<open>
  A diamond of four ops: \<open>opA\<close> and \<open>opB\<close> read \<open>opX\<close>, and \<open>opC\<close> reads both. The
  result is \<open>opC\<close>; every op defines its own tensor.
\<close>

definition ex_op :: "nat \<Rightarrow> Op list \<Rightarrow> Op" where
  "ex_op i as = Op i as [] [] \<lparr>td_id = i, shape = [int i + 1], itemsize = 4\<rparr> None True"

definition opX :: Op where "opX = ex_op 0 []"
definition opA :: Op where "opA = ex_op 1 [opX]"
definition opB :: Op where "opB = ex_op 2 [opX]"
definition opC :: Op where "opC = ex_op 3 [opA, opB]"

definition ex_ops :: "Op node_ops" where
  "ex_ops = Op_ops (\<lambda>x. [x])"

definition ex_dfg :: "Op DataFlowGraph" where
  "ex_dfg = \<lparr>successors = fill_successors [opC] [], results = [opC]\<rparr>"

section \<open>The interference graph and its colouring\<close>

subsection \<open>Construction of the graph\<close>

lemma set_dict_keys: "set (dict_keys xs) = set xs"
  by (induction xs) auto

lemma distinct_dict_keys: "distinct (dict_keys xs)"
  by (induction xs) (auto simp: set_dict_keys)

lemma combinations2_mem:
  "(x, y) \<in> set (combinations2 l) \<Longrightarrow> x \<in> set l \<and> y \<in> set l"
  by (induction l) auto

lemma combinations2_distinct:
  "distinct l \<Longrightarrow> (x, y) \<in> set (combinations2 l) \<Longrightarrow> x \<noteq> y"
  by (induction l) (auto dest: combinations2_mem)

lemma combinations2_complete:
  "x \<in> set l \<Longrightarrow> y \<in> set l \<Longrightarrow> x \<noteq> y \<Longrightarrow>
     (x, y) \<in> set (combinations2 l) \<or> (y, x) \<in> set (combinations2 l)"
  by (induction l) auto

text \<open>The neighbours that a list of edges gives a node.\<close>

definition adj :: "('a \<times> 'a) list \<Rightarrow> 'a \<Rightarrow> 'a set" where
  "adj es x = {y. (x, y) \<in> set es \<or> (y, x) \<in> set es}"

lemma add_edges_result:
  "\<forall>(u, v) \<in> set es. u \<in> dom nb \<and> v \<in> dom nb \<Longrightarrow>
   \<exists>nb'. add_edges es nb = Inr nb' \<and>
     (\<forall>x. nb' x = (case nb x of None \<Rightarrow> None | Some N \<Rightarrow> Some (N \<union> adj es x)))"
proof (induction es arbitrary: nb)
  case Nil
  then show ?case by (auto simp: adj_def split: option.splits)
next
  case (Cons e es)
  obtain u v where e: "e = (u, v)" by (cases e)
  from Cons.prems e obtain nu where nu: "nb u = Some nu" by auto
  define nb1 where "nb1 = nb(u \<mapsto> insert v nu)"
  from Cons.prems e have "v \<in> dom nb1" by (auto simp: nb1_def)
  then obtain nv where nv: "nb1 v = Some nv" by blast
  define nb2 where "nb2 = nb1(v \<mapsto> insert u nv)"
  have dom2: "dom nb2 = dom nb" using nu nv Cons.prems e by (auto simp: nb2_def nb1_def)
  have "\<forall>(u, v) \<in> set es. u \<in> dom nb2 \<and> v \<in> dom nb2" using Cons.prems dom2 by auto
  from Cons.IH[OF this] obtain nb' where r: "add_edges es nb2 = Inr nb'"
    and c: "\<forall>x. nb' x = (case nb2 x of None \<Rightarrow> None | Some N \<Rightarrow> Some (N \<union> adj es x))" by blast
  have "add_edges (e # es) nb = Inr nb'" using e nu nv r by (simp add: nb1_def nb2_def Let_def)
  moreover have "nb' x = (case nb x of None \<Rightarrow> None | Some N \<Rightarrow> Some (N \<union> adj (e # es) x))" for x
    using c[rule_format, of x] nu nv e
    by (auto simp: nb2_def nb1_def adj_def split: option.splits if_splits)
  ultimately show ?case by blast
qed

definition live_edges :: "('op \<times> 'a list) list \<Rightarrow> ('a \<times> 'a) list" where
  "live_edges lives = concat (map combinations2 (map snd lives))"

definition live_keys :: "('op \<times> 'a list) list \<Rightarrow> 'a list" where
  "live_keys lives = dict_keys (concat (map snd lives))"

lemma map_of_empty_sets:
  "map_of (map (\<lambda>x. (x, {})) ks) x = (if x \<in> set ks then Some {} else None)"
  by (induction ks) auto

lemma InterferenceGraph_init_result:
  "\<exists>g. InterferenceGraph_init lives = Inr g \<and>
     weights g = map (\<lambda>x. (x, weight x)) (live_keys lives) \<and>
     (\<forall>x. neighbors g x =
        (if x \<in> set (live_keys lives) then Some (adj (live_edges lives) x) else None))"
proof -
  let ?ks = "live_keys lives"
  let ?nb0 = "map_of (map (\<lambda>x. (x, {})) ?ks)"
  have "\<forall>(u, v) \<in> set (live_edges lives). u \<in> dom ?nb0 \<and> v \<in> dom ?nb0"
  proof (clarify)
    fix u v assume "(u, v) \<in> set (live_edges lives)"
    then obtain l where "l \<in> set (map snd lives)" "(u, v) \<in> set (combinations2 l)"
      by (auto simp: live_edges_def)
    then have "u \<in> set (concat (map snd lives))" "v \<in> set (concat (map snd lives))"
      using combinations2_mem[of u v l] by auto
    then show "u \<in> dom ?nb0 \<and> v \<in> dom ?nb0"
      by (simp add: live_keys_def set_dict_keys map_of_empty_sets dom_def)
  qed
  from add_edges_result[OF this] obtain nb where
    r: "add_edges (live_edges lives) ?nb0 = Inr nb" and
    c: "\<forall>x. nb x = (case ?nb0 x of None \<Rightarrow> None | Some N \<Rightarrow> Some (N \<union> adj (live_edges lives) x))"
    by blast
  have "InterferenceGraph_init lives = Inr \<lparr>neighbors = nb, weights = map (\<lambda>x. (x, weight x)) ?ks\<rparr>"
    using r by (simp add: InterferenceGraph_init_def live_edges_def live_keys_def)
  moreover have "nb x = (if x \<in> set ?ks then Some (adj (live_edges lives) x) else None)" for x
    using c[rule_format, of x] by (simp add: map_of_empty_sets)
  ultimately show ?thesis by auto
qed

lemma adj_sym: "y \<in> adj es x \<longleftrightarrow> x \<in> adj es y"
  by (auto simp: adj_def)

lemma adj_live:
  "(i, l) \<in> set lives \<Longrightarrow> x \<in> set l \<Longrightarrow> y \<in> set l \<Longrightarrow> x \<noteq> y \<Longrightarrow>
     y \<in> adj (live_edges lives) x"
  using combinations2_complete[of x l y]
  by (force simp: adj_def live_edges_def)

lemma adj_irrefl:
  "\<forall>(i, l) \<in> set lives. distinct l \<Longrightarrow> x \<notin> adj (live_edges lives) x"
proof
  assume d: "\<forall>(i, l) \<in> set lives. distinct l" and "x \<in> adj (live_edges lives) x"
  then obtain l where "l \<in> set (map snd lives)" "(x, x) \<in> set (combinations2 l)"
    by (auto simp: adj_def live_edges_def)
  moreover from this d have "distinct l" by auto
  ultimately show False using combinations2_distinct[of l x x] by simp
qed

lemma adj_keys: "y \<in> adj (live_edges lives) x \<Longrightarrow> y \<in> set (live_keys lives)"
proof -
  assume "y \<in> adj (live_edges lives) x"
  then obtain l where "l \<in> set (map snd lives)"
     "(x, y) \<in> set (combinations2 l) \<or> (y, x) \<in> set (combinations2 l)"
    by (auto simp: adj_def live_edges_def)
  then have "y \<in> set (concat (map snd lives))"
    using combinations2_mem[of x y l] combinations2_mem[of y x l] by auto
  then show ?thesis by (simp add: live_keys_def set_dict_keys)
qed

subsection \<open>The inner loop\<close>

text \<open>The elements the inner loop accepts, as a function of the excluded set.\<close>

fun accepted :: "('a \<Rightarrow> 'a set) \<Rightarrow> 'a list \<Rightarrow> 'a set \<Rightarrow> 'a list" where
  "accepted E [] N = []"
| "accepted E (x # xs) N =
     (if x \<notin> N then x # accepted E xs (N \<union> E x) else accepted E xs N)"

lemma accepted_subset: "set (accepted E xs N) \<subseteq> set xs"
  by (induction xs arbitrary: N) auto


lemma grow_accepted:
  "\<forall>x \<in> set xs. nb x = Some (E x) \<Longrightarrow> u \<notin> set xs \<Longrightarrow> nb u = Some N \<Longrightarrow>
   grow u xs (S, N, nb) =
     Inr (S \<union> set (accepted E xs N), N \<union> \<Union> (E ` set (accepted E xs N)),
          nb(u \<mapsto> N \<union> \<Union> (E ` set (accepted E xs N))))"
proof (induction xs arbitrary: S N nb)
  case Nil
  then show ?case by (simp add: map_upd_triv)
next
  case (Cons x xs)
  show ?case
  proof (cases "x \<in> N")
    case True
    then show ?thesis using Cons by simp
  next
    case False
    have nx: "nb x = Some (E x)" using Cons.prems by simp
    have ux: "u \<noteq> x" using Cons.prems by auto
    let ?nb = "nb(u \<mapsto> N \<union> E x)"
    have "grow u xs (insert x S, N \<union> E x, ?nb) =
      Inr (insert x S \<union> set (accepted E xs (N \<union> E x)),
           (N \<union> E x) \<union> \<Union> (E ` set (accepted E xs (N \<union> E x))),
           ?nb(u \<mapsto> (N \<union> E x) \<union> \<Union> (E ` set (accepted E xs (N \<union> E x)))))"
      using Cons.prems by (intro Cons.IH) auto
    then show ?thesis using False nx by (simp add: Un_assoc del: fun_upd_apply)
  qed
qed

lemma accepted_disjoint:
  assumes irr: "\<And>x. x \<notin> E x" and sym: "\<And>x y. y \<in> E x \<Longrightarrow> x \<in> E y"
  shows "set (accepted E xs N) \<inter> (N \<union> \<Union> (E ` set (accepted E xs N))) = {}"
proof (induction xs arbitrary: N)
  case Nil
  then show ?case by simp
next
  case (Cons x xs)
  show ?case
  proof (cases "x \<in> N")
    case True
    then show ?thesis using Cons.IH[of N] by simp
  next
    case False
    let ?A = "accepted E xs (N \<union> E x)"
    have IH: "set ?A \<inter> (N \<union> E x \<union> \<Union> (E ` set ?A)) = {}" by (rule Cons.IH)
    have "x \<notin> E a" if "a \<in> set ?A" for a
    proof
      assume "x \<in> E a"
      then have "a \<in> E x" by (rule sym)
      then show False using IH that by blast
    qed
    then have "x \<notin> N \<union> E x \<union> \<Union> (E ` set ?A)" using False irr by blast
    then have "set (x # ?A) \<inter> (N \<union> E x \<union> \<Union> (E ` set ?A)) = {}" using IH by simp
    moreover have "N \<union> \<Union> (E ` set (x # ?A)) = N \<union> E x \<union> \<Union> (E ` set ?A)" by auto
    ultimately show ?thesis using False by simp
  qed
qed

lemma accepted_enlarge:
  assumes irr: "\<And>x. x \<notin> E x" and sym: "\<And>x y. y \<in> E x \<Longrightarrow> x \<in> E y"
  shows "N \<subseteq> M \<Longrightarrow> M \<subseteq> N \<union> \<Union> (E ` set (accepted E xs N)) \<Longrightarrow>
   accepted E xs M = accepted E xs N"
proof (induction xs arbitrary: N M)
  case Nil
  then show ?case by simp
next
  case (Cons x xs)
  show ?case
  proof (cases "x \<in> N")
    case True
    then have "x \<in> M" using Cons.prems(1) by auto
    moreover have "accepted E xs M = accepted E xs N"
      using Cons.prems True by (intro Cons.IH) simp_all
    ultimately show ?thesis using True by simp
  next
    case False
    let ?A = "accepted E xs (N \<union> E x)"
    have "set (accepted E (x # xs) N) \<inter> (N \<union> \<Union> (E ` set (accepted E (x # xs) N))) = {}"
      using irr sym by (rule accepted_disjoint)
    then have "x \<notin> N \<union> \<Union> (E ` set (accepted E (x # xs) N))" using False by simp
    then have xM: "x \<notin> M" using Cons.prems(2) by blast
    have "M \<subseteq> N \<union> \<Union> (E ` set (x # ?A))" using Cons.prems(2) False by simp
    then have "M \<union> E x \<subseteq> (N \<union> E x) \<union> \<Union> (E ` set ?A)" by auto
    moreover have "N \<union> E x \<subseteq> M \<union> E x" using Cons.prems(1) by auto
    ultimately have "accepted E xs (M \<union> E x) = ?A" by (intro Cons.IH)
    then show ?thesis using False xM by simp
  qed
qed

lemma grow_accepted':
  "\<forall>x \<in> set (accepted E xs N). nb x = Some (E x) \<Longrightarrow> u \<notin> set xs \<Longrightarrow> nb u = Some N \<Longrightarrow>
   grow u xs (S, N, nb) =
     Inr (S \<union> set (accepted E xs N), N \<union> \<Union> (E ` set (accepted E xs N)),
          nb(u \<mapsto> N \<union> \<Union> (E ` set (accepted E xs N))))"
proof (induction xs arbitrary: S N nb)
  case Nil
  then show ?case by (simp add: map_upd_triv)
next
  case (Cons x xs)
  show ?case
  proof (cases "x \<in> N")
    case True
    then show ?thesis using Cons by simp
  next
    case False
    have nx: "nb x = Some (E x)" using Cons.prems False by simp
    have ux: "u \<noteq> x" using Cons.prems by auto
    let ?nb = "nb(u \<mapsto> N \<union> E x)"
    have "grow u xs (insert x S, N \<union> E x, ?nb) =
      Inr (insert x S \<union> set (accepted E xs (N \<union> E x)),
           (N \<union> E x) \<union> \<Union> (E ` set (accepted E xs (N \<union> E x))),
           ?nb(u \<mapsto> (N \<union> E x) \<union> \<Union> (E ` set (accepted E xs (N \<union> E x)))))"
    proof (rule Cons.IH)
      show "\<forall>y\<in>set (accepted E xs (N \<union> E x)). ?nb y = Some (E y)"
      proof
        fix y assume y: "y \<in> set (accepted E xs (N \<union> E x))"
        then have "y \<in> set xs" using accepted_subset by fastforce
        then have "y \<noteq> u" using Cons.prems(2) by auto
        then show "?nb y = Some (E y)" using Cons.prems(1) False y by simp
      qed
      show "u \<notin> set xs" using Cons.prems(2) by simp
      show "?nb u = Some (N \<union> E x)" by simp
    qed
    then show ?thesis using False nx by (simp add: Un_assoc del: fun_upd_apply)
  qed
qed

subsection \<open>The outer loop\<close>

lemma py_index_last: "py_index (bs @ [b]) (int (length bs)) = Inr b"
  by (simp add: py_index_def)

lemma color_loop_step:
  assumes "nb u = Some N" and "\<forall>x \<in> set (accepted E q N). nb x = Some (E x)"
    and "u \<notin> set q" and "w u = Some wu" and "length bs = length ps"
  shows "color_loop w (u # q) (ps, bs, nb, st) =
     color_loop w (filter (\<lambda>x. x \<notin> insert u (set (accepted E q N))) q)
       (ps @ [insert u (set (accepted E q N))],
        bs @ [new_Buffer (int (length ps)) wu],
        nb(u \<mapsto> N \<union> \<Union> (E ` set (accepted E q N))),
        set_buffers (insert u (set (accepted E q N))) (new_Buffer (int (length ps)) wu) st)"
proof -
  have g: "grow u q ({u}, N, nb) =
     Inr ({u} \<union> set (accepted E q N), N \<union> \<Union> (E ` set (accepted E q N)),
          nb(u \<mapsto> N \<union> \<Union> (E ` set (accepted E q N))))"
    using assms(2,3,1) by (rule grow_accepted')
  have i: "py_index (bs @ [new_Buffer (int (length ps)) wu]) (int (length ps)) =
      Inr (new_Buffer (int (length ps)) wu)"
    using py_index_last[of bs] assms(5) by simp
  show ?thesis using assms(1,4) g i by (simp add: Let_def del: fun_upd_apply)
qed

lemma color_loop_invariant:
  assumes base: "distinct q" "\<forall>x \<in> set q. nb x = Some (E x) \<and> w x = Some (W x)"
      "length bs = length ps"
    and init: "P q (ps, bs, nb, st)"
    and step: "\<And>u q ps bs nb st A S b.
      distinct (u # q) \<Longrightarrow> \<forall>x \<in> set (u # q). nb x = Some (E x) \<and> w x = Some (W x) \<Longrightarrow>
      length bs = length ps \<Longrightarrow> P (u # q) (ps, bs, nb, st) \<Longrightarrow>
      A = accepted E q (E u) \<Longrightarrow> S = insert u (set A) \<Longrightarrow>
      b = new_Buffer (int (length ps)) (W u) \<Longrightarrow>
      P (filter (\<lambda>x. x \<notin> S) q)
        (ps @ [S], bs @ [b], nb(u \<mapsto> E u \<union> \<Union> (E ` set A)), set_buffers S b st)"
  shows "\<exists>s'. color_loop w q (ps, bs, nb, st) = Inr s' \<and> P [] s'"
  using base init
proof (induction "length q" arbitrary: q ps bs nb st rule: less_induct)
  case less
  show ?case
  proof (cases q)
    case Nil
    then show ?thesis using less.prems by simp
  next
    case (Cons u q0)
    define A where "A = accepted E q0 (E u)"
    define S where "S = insert u (set A)"
    define b where "b = new_Buffer (int (length ps)) (W u)"
    define q1 where "q1 = filter (\<lambda>x. x \<notin> S) q0"
    define nb1 where "nb1 = nb(u \<mapsto> E u \<union> \<Union> (E ` set A))"
    have u: "nb u = Some (E u)" "w u = Some (W u)" "u \<notin> set q0"
      using less.prems Cons by auto
    have acc: "\<forall>x \<in> set A. nb x = Some (E x)"
      using less.prems(2) Cons accepted_subset[of E q0 "E u"] by (auto simp: A_def)
    have unfold: "color_loop w q (ps, bs, nb, st) =
        color_loop w q1 (ps @ [S], bs @ [b], nb1, set_buffers S b st)"
      unfolding Cons q1_def S_def b_def nb1_def A_def
      using u(1) acc[unfolded A_def] u(3) u(2) less.prems(3) by (rule color_loop_step)
    have P1: "P q1 (ps @ [S], bs @ [b], nb1, set_buffers S b st)"
      unfolding q1_def nb1_def
      using less.prems(1,2,3,4)[unfolded Cons] A_def S_def b_def by (rule step)
    have "length q1 < length q" by (simp add: q1_def Cons less_Suc_eq_le)
    moreover have "distinct q1" using less.prems(1) Cons by (simp add: q1_def)
    moreover have "\<forall>x \<in> set q1. nb1 x = Some (E x) \<and> w x = Some (W x)"
      using less.prems(2) Cons u(3) by (auto simp: q1_def nb1_def)
    moreover have "length (bs @ [b]) = length (ps @ [S])" using less.prems(3) by simp
    ultimately have "\<exists>s'. color_loop w q1 (ps @ [S], bs @ [b], nb1, set_buffers S b st) = Inr s' \<and> P [] s'"
      using P1 by (rule less.hyps)
    then show ?thesis using unfold by simp
  qed
qed

lemma accepted_indep:
  assumes sym: "\<And>x y. y \<in> E x \<Longrightarrow> x \<in> E y"
  shows "\<forall>a \<in> set (accepted E xs N). a \<notin> N \<and>
           (\<forall>a' \<in> set (accepted E xs N). a' \<noteq> a \<longrightarrow> a' \<notin> E a)"
proof (induction xs arbitrary: N)
  case Nil
  then show ?case by simp
next
  case (Cons x xs)
  show ?case
  proof (cases "x \<in> N")
    case True
    then show ?thesis using Cons.IH[of N] by simp
  next
    case False
    let ?A = "accepted E xs (N \<union> E x)"
    have IH: "\<forall>a \<in> set ?A. a \<notin> N \<union> E x \<and> (\<forall>a' \<in> set ?A. a' \<noteq> a \<longrightarrow> a' \<notin> E a)"
      by (rule Cons.IH)
    have 1: "\<forall>a' \<in> set ?A. a' \<notin> E x" using IH by blast
    have 2: "\<forall>a \<in> set ?A. x \<notin> E a" using 1 sym by blast
    have 3: "\<forall>a \<in> set ?A. a \<notin> N" using IH by blast
    have "\<forall>a \<in> set (x # ?A). a \<notin> N \<and> (\<forall>a' \<in> set (x # ?A). a' \<noteq> a \<longrightarrow> a' \<notin> E a)"
      using False 1 2 3 IH by simp
    then show ?thesis using False by simp
  qed
qed

text \<open>
  What holds of a partition and its buffer: no two members are neighbours, every member
  carries the buffer, and the head is a heaviest member, whose weight is the size of
  the buffer and whose neighbour set has absorbed those of the other members.
\<close>

definition part_ok :: "('a \<Rightarrow> 'a set) \<Rightarrow> ('a \<Rightarrow> int) \<Rightarrow> ('a \<rightharpoonup> 'a set) \<Rightarrow> ('a \<rightharpoonup> Buffer)
    \<Rightarrow> 'a set \<Rightarrow> Buffer \<Rightarrow> bool" where
  "part_ok E W nb st S b \<longleftrightarrow>
     (\<forall>s \<in> S. \<forall>t \<in> S. s \<noteq> t \<longrightarrow> t \<notin> E s) \<and>
     (\<forall>t \<in> S. st t = Some b) \<and>
     (\<exists>u \<in> S. buf_size b = W u \<and> (\<forall>t \<in> S. W t \<le> W u) \<and>
        nb u = Some (\<Union> (E ` S)) \<and> (\<forall>x \<in> S. x \<noteq> u \<longrightarrow> nb x = Some (E x)))"

lemma part_ok_frame:
  assumes "part_ok E W nb st S b" and "\<forall>t \<in> S. nb1 t = nb t" and "\<forall>t \<in> S. st1 t = st t"
  shows "part_ok E W nb1 st1 S b"
proof -
  from assms(1) obtain u where o1: "\<forall>s \<in> S. \<forall>t \<in> S. s \<noteq> t \<longrightarrow> t \<notin> E s"
    and o2: "\<forall>t \<in> S. st t = Some b"
    and o3: "u \<in> S" "buf_size b = W u" "\<forall>t \<in> S. W t \<le> W u"
    and o4: "nb u = Some (\<Union> (E ` S))" and o5: "\<forall>x \<in> S. x \<noteq> u \<longrightarrow> nb x = Some (E x)"
    unfolding part_ok_def by blast
  have "\<forall>t \<in> S. st1 t = Some b" using o2 assms(3) by simp
  moreover have "nb1 u = Some (\<Union> (E ` S))" using o4 o3(1) assms(2) by simp
  moreover have "\<forall>x \<in> S. x \<noteq> u \<longrightarrow> nb1 x = Some (E x)" using o5 assms(2) by simp
  ultimately show ?thesis unfolding part_ok_def using o1 o3 by blast
qed

text \<open>The invariant of the outer loop.\<close>

definition color_inv :: "('a \<Rightarrow> 'a set) \<Rightarrow> ('a \<Rightarrow> int) \<Rightarrow> 'a set \<Rightarrow> 'a list \<Rightarrow>
    'a set list \<times> Buffer list \<times> ('a \<rightharpoonup> 'a set) \<times> ('a \<rightharpoonup> Buffer) \<Rightarrow> bool" where
  "color_inv E W K q s = (case s of (ps, bs, nb, st) \<Rightarrow>
     K = set q \<union> \<Union> (set ps) \<and> length bs = length ps \<and>
     (\<forall>S \<in> set ps. S \<inter> set q = {}) \<and>
     (\<forall>(S, b) \<in> set (zip ps bs). part_ok E W nb st S b) \<and>
     map buf_color bs = map int [0..<length bs] \<and>
     sorted (map (\<lambda>x. - W x) q))"

lemma color_inv_step:
  assumes sym: "\<And>x y. y \<in> E x \<Longrightarrow> x \<in> E y"
    and d: "distinct (u # q)"
    and base: "\<forall>x \<in> set (u # q). nb x = Some (E x) \<and> w x = Some (W x)"
    and len: "length bs = length ps"
    and inv: "color_inv E W K (u # q) (ps, bs, nb, st)"
    and A: "A = accepted E q (E u)" and S: "S = insert u (set A)"
    and b: "b = new_Buffer (int (length ps)) (W u)"
  shows "color_inv E W K (filter (\<lambda>x. x \<notin> S) q)
        (ps @ [S], bs @ [b], nb(u \<mapsto> E u \<union> \<Union> (E ` set A)), set_buffers S b st)"
proof -
  let ?q1 = "filter (\<lambda>x. x \<notin> S) q"
  let ?nb1 = "nb(u \<mapsto> E u \<union> \<Union> (E ` set A))"
  let ?st1 = "set_buffers S b st"
  have K: "K = set (u # q) \<union> \<Union> (set ps)"
    and dis: "\<forall>S' \<in> set ps. S' \<inter> set (u # q) = {}"
    and old: "\<forall>(S', b') \<in> set (zip ps bs). part_ok E W nb st S' b'"
    and col: "map buf_color bs = map int [0..<length bs]"
    and srt: "sorted (map (\<lambda>x. - W x) (u # q))"
    using inv by (simp_all add: color_inv_def)
  have Asub: "set A \<subseteq> set q" unfolding A by (rule accepted_subset)
  have Ssub: "S \<subseteq> set (u # q)" using Asub S by auto
  have ind: "\<forall>a \<in> set A. a \<notin> E u \<and> (\<forall>a' \<in> set A. a' \<noteq> a \<longrightarrow> a' \<notin> E a)"
    unfolding A using sym by (rule accepted_indep)
  have 1: "K = set ?q1 \<union> \<Union> (set (ps @ [S]))" using K Ssub S by auto
  have 2: "\<forall>S' \<in> set (ps @ [S]). S' \<inter> set ?q1 = {}" using dis by auto
  have newS: "\<forall>s \<in> S. \<forall>t \<in> S. s \<noteq> t \<longrightarrow> t \<notin> E s"
  proof (intro ballI impI)
    fix s t assume st: "s \<in> S" "t \<in> S" "s \<noteq> t"
    show "t \<notin> E s"
    proof (cases "s = u")
      case True
      then have "t \<in> set A" using st S by auto
      then show ?thesis using ind True by blast
    next
      case False
      then have sA: "s \<in> set A" using st S by auto
      show ?thesis
      proof (cases "t = u")
        case True
        have "s \<notin> E u" using ind sA by blast
        then show ?thesis using sym True by blast
      next
        case False
        then have tA: "t \<in> set A" using st S by auto
        have "\<forall>a' \<in> set A. a' \<noteq> s \<longrightarrow> a' \<notin> E s" using ind sA by blast
        then show ?thesis using tA st(3) by metis
      qed
    qed
  qed
  have newst: "\<forall>t \<in> S. ?st1 t = Some b" by (simp add: set_buffers_def)
  have wmax: "\<forall>t \<in> S. W t \<le> W u" using srt Ssub by auto
  have uni: "E u \<union> \<Union> (E ` set A) = \<Union> (E ` S)" using S by auto
  have h1: "u \<in> S" using S by simp
  have h2: "buf_size b = W u" by (simp add: b new_Buffer_def)
  have h3: "?nb1 u = Some (\<Union> (E ` S))" using uni by simp
  have h4: "\<forall>x \<in> S. x \<noteq> u \<longrightarrow> ?nb1 x = Some (E x)" using base Ssub by auto
  have new: "part_ok E W ?nb1 ?st1 S b"
    unfolding part_ok_def using newS newst h1 h2 wmax h3 h4 by blast
  have oldpairs: "part_ok E W ?nb1 ?st1 S' b'" if m: "(S', b') \<in> set (zip ps bs)" for S' b'
  proof -
    have "S' \<in> set ps" using m by (rule set_zip_leftD)
    then have disj: "S' \<inter> set (u # q) = {}" using dis by blast
    then have nS: "\<forall>t \<in> S'. t \<notin> S" using Ssub by blast
    have nu: "\<forall>t \<in> S'. t \<noteq> u" using disj by auto
    have p: "part_ok E W nb st S' b'" using old m by blast
    show ?thesis
    proof (rule part_ok_frame[OF p])
      show "\<forall>t\<in>S'. ?nb1 t = nb t" using nu by simp
      show "\<forall>t\<in>S'. ?st1 t = st t" using nS by (simp add: set_buffers_def)
    qed
  qed
  have z: "zip (ps @ [S]) (bs @ [b]) = zip ps bs @ [(S, b)]" using len by simp
  have 3: "\<forall>(S', b') \<in> set (zip (ps @ [S]) (bs @ [b])). part_ok E W ?nb1 ?st1 S' b'"
    unfolding z using oldpairs new by auto
  have 4: "map buf_color (bs @ [b]) = map int [0..<length (bs @ [b])]"
    using col len by (simp add: b new_Buffer_def)
  have 5: "sorted (map (\<lambda>x. - W x) ?q1)"
    using srt by (simp add: sorted_filter)
  show ?thesis using 1 2 3 4 5 len unfolding color_inv_def by simp
qed

lemma color_loop_result:
  assumes sym: "\<And>x y. y \<in> E x \<Longrightarrow> x \<in> E y"
    and d: "distinct q" and base: "\<forall>x \<in> set q. nb x = Some (E x) \<and> w x = Some (W x)"
    and srt: "sorted (map (\<lambda>x. - W x) q)"
  shows "\<exists>s'. color_loop w q ([], [], nb, st) = Inr s' \<and> color_inv E W (set q) [] s'"
proof (rule color_loop_invariant[where P = "color_inv E W (set q)" and E = E and W = W])
  show "distinct q" by (rule d)
  show "\<forall>x\<in>set q. nb x = Some (E x) \<and> w x = Some (W x)" by (rule base)
  show "length ([]::Buffer list) = length ([]::'a set list)" by simp
  show "color_inv E W (set q) q ([], [], nb, st)" using srt by (simp add: color_inv_def)
next
  fix u q' ps bs nb' st' A S b
  assume "distinct (u # q')" "\<forall>x\<in>set (u # q'). nb' x = Some (E x) \<and> w x = Some (W x)"
    "length (bs::Buffer list) = length (ps::'a set list)" "color_inv E W (set q) (u # q') (ps, bs, nb', st')"
    "A = accepted E q' (E u)" "S = insert u (set A)" "b = new_Buffer (int (length ps)) (W u)"
  with sym show "color_inv E W (set q) (filter (\<lambda>x. x \<notin> S) q')
        (ps @ [S], bs @ [b], nb'(u \<mapsto> E u \<union> \<Union> (E ` set A)), set_buffers S b st')"
    by (rule color_inv_step)
qed

lemma insort_key_pairs:
  "insort_key (\<lambda>p. - snd p) (x, f x) (map (\<lambda>x. (x, f x)) zs) =
     map (\<lambda>x. (x, f x)) (insort_key (\<lambda>x. - f x) x zs)"
  by (induction zs) auto

lemma sort_key_pairs:
  "sort_key (\<lambda>p. - snd p) (map (\<lambda>x. (x, f x)) ks) =
     map (\<lambda>x. (x, f x)) (sort_key (\<lambda>x. - f x) ks)"
  by (induction ks) (simp_all add: insort_key_pairs)

lemma sorted_queue_pairs:
  "sorted_queue (map (\<lambda>x. (x, f x)) ks) = sort_key (\<lambda>x. - f x) ks"
  by (simp add: sorted_queue_def sort_key_pairs comp_def)

lemma map_of_pairs: "map_of (map (\<lambda>x. (x, f x)) ks) x = (if x \<in> set ks then Some (f x) else None)"
  by (induction ks) auto

lemma weight_prod: "weight x = max 1 (prod_list (shape x)) * itemsize x"
proof -
  have "foldl (*) a xs = a * prod_list xs" for a :: int and xs
    by (induction xs arbitrary: a) (simp_all add: mult.assoc)
  then show ?thesis by (simp add: weight_def)
qed

lemma color_run:
  fixes lives :: "('op \<times> TensorDescription list) list"
  shows "\<exists>g ps bs nb st'. InterferenceGraph_init lives = Inr g \<and>
     weights g = map (\<lambda>x. (x, weight x)) (live_keys lives) \<and>
     (\<forall>x. neighbors g x =
        (if x \<in> set (live_keys lives) then Some (adj (live_edges lives) x) else None)) \<and>
     color_loop (map_of (weights g)) (sorted_queue (weights g)) ([], [], neighbors g, st)
        = Inr (ps, bs, nb, st') \<and>
     color g st = Inr ((sum_list (map buf_size bs), bs), g\<lparr>neighbors := nb\<rparr>, st') \<and>
     color_inv (adj (live_edges lives)) weight (set (live_keys lives)) [] (ps, bs, nb, st')"
proof -
  let ?E = "adj (live_edges lives)"
  let ?ks = "live_keys lives"
  from InterferenceGraph_init_result[of lives] obtain g where
    g: "InterferenceGraph_init lives = Inr g"
    and w: "weights g = map (\<lambda>x. (x, weight x)) ?ks"
    and n: "\<forall>x. neighbors g x = (if x \<in> set ?ks then Some (?E x) else None)"
    by blast
  let ?q = "sort_key (\<lambda>x. - weight x) ?ks"
  have q: "sorted_queue (weights g) = ?q" by (simp add: w sorted_queue_pairs)
  have sq: "set ?q = set ?ks" by simp
  have "\<exists>s'. color_loop (map_of (weights g)) ?q ([], [], neighbors g, st) = Inr s' \<and>
      color_inv ?E weight (set ?q) [] s'"
  proof (rule color_loop_result)
    show "\<And>x y. y \<in> ?E x \<Longrightarrow> x \<in> ?E y" by (simp add: adj_sym)
    show "distinct ?q" by (simp add: live_keys_def distinct_dict_keys)
    show "\<forall>x\<in>set ?q. neighbors g x = Some (?E x) \<and> map_of (weights g) x = Some (weight x)"
      using n by (simp add: w map_of_pairs)
    show "sorted (map (\<lambda>x. - weight x) ?q)" by (rule sorted_sort_key)
  qed
  then obtain ps bs nb st' where
    r: "color_loop (map_of (weights g)) ?q ([], [], neighbors g, st) = Inr (ps, bs, nb, st')"
    and i: "color_inv ?E weight (set ?ks) [] (ps, bs, nb, st')"
    unfolding sq by (metis prod_cases4)
  have "color g st = Inr ((sum_list (map buf_size bs), bs), g\<lparr>neighbors := nb\<rparr>, st')"
    using r q by (simp add: color_def)
  then show ?thesis using g w n r i q by auto
qed

lemma color_inv_final:
  assumes "color_inv E W K [] (ps, bs, nb, st)" and "t \<in> K"
  shows "\<exists>k < length ps. t \<in> ps ! k \<and> length bs = length ps \<and> part_ok E W nb st (ps ! k) (bs ! k) \<and>
     buf_color (bs ! k) = int k"
proof -
  from assms have K: "K = \<Union> (set ps)" and len: "length bs = length ps"
    and p: "\<forall>(S, b) \<in> set (zip ps bs). part_ok E W nb st S b"
    and c: "map buf_color bs = map int [0..<length bs]"
    by (simp_all add: color_inv_def)
  from K assms(2) obtain S where "S \<in> set ps" "t \<in> S" by blast
  then obtain k where k: "k < length ps" "ps ! k = S" by (auto simp: in_set_conv_nth)
  have "(ps ! k, bs ! k) \<in> set (zip ps bs)" using k len by (auto simp: in_set_zip)
  then have "part_ok E W nb st (ps ! k) (bs ! k)" using p by blast
  moreover have "buf_color (bs ! k) = int k"
  proof -
    have "map buf_color bs ! k = map int [0..<length bs] ! k" using c by simp
    then show ?thesis using k len by simp
  qed
  ultimately show ?thesis using k \<open>t \<in> S\<close> len by blast
qed

lemma color_inv_partition:
  assumes "color_inv E W K [] (ps, bs, nb, st)" and "k < length ps"
  shows "part_ok E W nb st (ps ! k) (bs ! k) \<and> buf_color (bs ! k) = int k \<and> length bs = length ps"
proof -
  from assms have len: "length bs = length ps"
    and p: "\<forall>(S, b) \<in> set (zip ps bs). part_ok E W nb st S b"
    and c: "map buf_color bs = map int [0..<length bs]"
    by (simp_all add: color_inv_def)
  have "(ps ! k, bs ! k) \<in> set (zip ps bs)" using assms(2) len by (auto simp: in_set_zip)
  then have "part_ok E W nb st (ps ! k) (bs ! k)" using p by blast
  moreover have "buf_color (bs ! k) = int k"
  proof -
    have "map buf_color bs ! k = map int [0..<length bs] ! k" using c by simp
    then show ?thesis using assms(2) len by simp
  qed
  ultimately show ?thesis using len by blast
qed

subsection \<open>Interfering tensors never share a colour\<close>

text \<open>
  Claim C1. Whatever the liveness mapping, the graph is built and \<open>color\<close> returns, and
  two different tensor descriptions that are live together at some instruction are
  given buffers of different colours; no partition of the greedy peeling holds both.
\<close>

theorem color_separates_interfering:
  fixes lives :: "('op \<times> TensorDescription list) list"
  assumes "(i, l) \<in> set lives" and "t1 \<in> set l" and "t2 \<in> set l" and "t1 \<noteq> t2"
  shows "\<exists>g ps bs nb mem g' st' b1 b2.
     InterferenceGraph_init lives = Inr g \<and>
     color_loop (map_of (weights g)) (sorted_queue (weights g)) ([], [], neighbors g, st)
        = Inr (ps, bs, nb, st') \<and>
     (\<forall>S \<in> set ps. \<not> (t1 \<in> S \<and> t2 \<in> S)) \<and>
     color g st = Inr ((mem, bs), g', st') \<and>
     st' t1 = Some b1 \<and> st' t2 = Some b2 \<and> buf_color b1 \<noteq> buf_color b2"
proof -
  let ?E = "adj (live_edges lives)"
  let ?ks = "live_keys lives"
  from color_run[of lives st] obtain g ps bs nb st' where
    g: "InterferenceGraph_init lives = Inr g"
    and r: "color_loop (map_of (weights g)) (sorted_queue (weights g)) ([], [], neighbors g, st)
        = Inr (ps, bs, nb, st')"
    and c: "color g st = Inr ((sum_list (map buf_size bs), bs), g\<lparr>neighbors := nb\<rparr>, st')"
    and inv: "color_inv ?E weight (set ?ks) [] (ps, bs, nb, st')"
    by blast
  have e: "t2 \<in> ?E t1" using assms by (rule adj_live)
  have k1: "t1 \<in> set ?ks" and k2: "t2 \<in> set ?ks"
    using assms(1,2,3) by (auto simp: live_keys_def set_dict_keys intro!: bexI[of _ "(i, l)"])
  have sep: "\<not> (t1 \<in> S \<and> t2 \<in> S)" if "S \<in> set ps" for S
  proof -
    from that obtain k where k: "k < length ps" "ps ! k = S" by (auto simp: in_set_conv_nth)
    have "part_ok ?E weight nb st' S (bs ! k)"
      using color_inv_partition[OF inv k(1)] k(2) by simp
    then have "\<forall>s \<in> S. \<forall>t \<in> S. s \<noteq> t \<longrightarrow> t \<notin> ?E s" by (simp add: part_ok_def)
    then show ?thesis using e assms(4) by metis
  qed
  from color_inv_final[OF inv k1] obtain j1 where
    j1: "j1 < length ps" "t1 \<in> ps ! j1" "part_ok ?E weight nb st' (ps ! j1) (bs ! j1)"
      "buf_color (bs ! j1) = int j1" by blast
  from color_inv_final[OF inv k2] obtain j2 where
    j2: "j2 < length ps" "t2 \<in> ps ! j2" "part_ok ?E weight nb st' (ps ! j2) (bs ! j2)"
      "buf_color (bs ! j2) = int j2" by blast
  have s1: "st' t1 = Some (bs ! j1)" using j1(2,3) by (simp add: part_ok_def)
  have s2: "st' t2 = Some (bs ! j2)" using j2(2,3) by (simp add: part_ok_def)
  have "j1 \<noteq> j2"
  proof
    assume "j1 = j2"
    then have "t1 \<in> ps ! j1 \<and> t2 \<in> ps ! j1" using j1(2) j2(2) by simp
    moreover have "ps ! j1 \<in> set ps" using j1(1) by simp
    ultimately show False using sep by blast
  qed
  then have "buf_color (bs ! j1) \<noteq> buf_color (bs ! j2)" using j1(4) j2(4) by simp
  then show ?thesis using g r c s1 s2 sep by blast
qed


theorem color_separates_interfering_witness:
  "\<exists>g ps bs nb mem g' st' b1 b2.
     InterferenceGraph_init
       [(0::nat, [\<lparr>td_id = 0, shape = [2, 3], itemsize = 4\<rparr>, \<lparr>td_id = 1, shape = [2], itemsize = 4\<rparr>])]
         = Inr g \<and>
     color_loop (map_of (weights g)) (sorted_queue (weights g)) ([], [], neighbors g, Map.empty)
        = Inr (ps, bs, nb, st') \<and>
     (\<forall>S \<in> set ps. \<not> (\<lparr>td_id = 0, shape = [2, 3], itemsize = 4\<rparr> \<in> S \<and>
                         \<lparr>td_id = 1, shape = [2], itemsize = 4\<rparr> \<in> S)) \<and>
     color g Map.empty = Inr ((mem, bs), g', st') \<and>
     st' \<lparr>td_id = 0, shape = [2, 3], itemsize = 4\<rparr> = Some b1 \<and>
     st' \<lparr>td_id = 1, shape = [2], itemsize = 4\<rparr> = Some b2 \<and>
     buf_color b1 \<noteq> buf_color b2"
  using color_separates_interfering [of "0::nat"
      "[\<lparr>td_id = 0, shape = [2, 3], itemsize = 4\<rparr>, \<lparr>td_id = 1, shape = [2], itemsize = 4\<rparr>]"
      "[(0::nat, [\<lparr>td_id = 0, shape = [2, 3], itemsize = 4\<rparr>, \<lparr>td_id = 1, shape = [2], itemsize = 4\<rparr>])]"
      "\<lparr>td_id = 0, shape = [2, 3], itemsize = 4\<rparr>" "\<lparr>td_id = 1, shape = [2], itemsize = 4\<rparr>"
      Map.empty]
  by simp

subsection \<open>Weights, buffer sizes and the total\<close>

text \<open>
  Claim C9. The weight of a tensor description in the graph is
  \<open>max(1, product of its shape) * item size\<close>. \<open>color\<close> returns one buffer for each
  partition, in order, and the partitions hold all the tensors of the live sets and no
  other; buffer \<open>k\<close> has the colour \<open>k\<close>, every tensor of partition \<open>k\<close> carries it, its
  size is the weight of a member of the partition (its head), and no member is heavier;
  the total that \<open>color\<close> returns is the sum of the sizes of the buffers.
\<close>

theorem color_buffer_sizes:
  fixes lives :: "('op \<times> TensorDescription list) list"
  shows "\<exists>g ps bs nb st'.
     InterferenceGraph_init lives = Inr g \<and>
     (\<forall>t \<in> set (concat (map snd lives)).
        map_of (weights g) t = Some (max 1 (prod_list (shape t)) * itemsize t)) \<and>
     color_loop (map_of (weights g)) (sorted_queue (weights g)) ([], [], neighbors g, st)
        = Inr (ps, bs, nb, st') \<and>
     length bs = length ps \<and>
     \<Union> (set ps) = set (concat (map snd lives)) \<and>
     (\<forall>k < length ps. buf_color (bs ! k) = int k \<and>
        (\<forall>t \<in> ps ! k. st' t = Some (bs ! k))) \<and>
     (\<forall>k < length ps. \<exists>u \<in> ps ! k. buf_size (bs ! k) = weight u \<and>
        (\<forall>t \<in> ps ! k. weight t \<le> weight u)) \<and>
     color g st = Inr ((sum_list (map buf_size bs), bs), g\<lparr>neighbors := nb\<rparr>, st')"
proof -
  let ?E = "adj (live_edges lives)"
  let ?ks = "live_keys lives"
  from color_run[of lives st] obtain g ps bs nb st' where
    g: "InterferenceGraph_init lives = Inr g"
    and w: "weights g = map (\<lambda>x. (x, weight x)) ?ks"
    and r: "color_loop (map_of (weights g)) (sorted_queue (weights g)) ([], [], neighbors g, st)
        = Inr (ps, bs, nb, st')"
    and c: "color g st = Inr ((sum_list (map buf_size bs), bs), g\<lparr>neighbors := nb\<rparr>, st')"
    and inv: "color_inv ?E weight (set ?ks) [] (ps, bs, nb, st')"
    by blast
  have 1: "\<forall>t \<in> set (concat (map snd lives)).
        map_of (weights g) t = Some (max 1 (prod_list (shape t)) * itemsize t)"
    using w by (simp add: map_of_pairs live_keys_def set_dict_keys weight_prod)
  have len: "length bs = length ps" using inv by (simp add: color_inv_def)
  have "set ?ks = \<Union> (set ps)" using inv by (simp add: color_inv_def)
  then have cov: "\<Union> (set ps) = set (concat (map snd lives))"
    by (simp add: live_keys_def set_dict_keys)
  have p: "part_ok ?E weight nb st' (ps ! k) (bs ! k)" and col: "buf_color (bs ! k) = int k"
    if "k < length ps" for k
    using color_inv_partition[OF inv that] by simp_all
  have 2: "\<exists>u \<in> ps ! k. buf_size (bs ! k) = weight u \<and> (\<forall>t \<in> ps ! k. weight t \<le> weight u)"
    if "k < length ps" for k
    using p[OF that] unfolding part_ok_def by blast
  have 3: "buf_color (bs ! k) = int k \<and> (\<forall>t \<in> ps ! k. st' t = Some (bs ! k))"
    if "k < length ps" for k
    using p[OF that] col[OF that] unfolding part_ok_def by blast
  show ?thesis using g 1 r len cov 2 3 c by blast
qed

text \<open>
  On two tensors that are live together, of weights \<open>2 * 3 * 4 = 24\<close> and
  \<open>max(1, 1) * 8 = 8\<close>, \<open>color\<close> makes the buffers of sizes 24 and 8 and returns 32.
\<close>

theorem color_buffer_sizes_witness:
  "(\<exists>g ps bs nb st'.
     InterferenceGraph_init
       [(0::nat, [\<lparr>td_id = 0, shape = [2, 3], itemsize = 4\<rparr>, \<lparr>td_id = 1, shape = [], itemsize = 8\<rparr>])]
         = Inr g \<and>
     (\<forall>t \<in> {\<lparr>td_id = 0, shape = [2, 3], itemsize = 4\<rparr>, \<lparr>td_id = 1, shape = [], itemsize = 8\<rparr>}.
        map_of (weights g) t = Some (max 1 (prod_list (shape t)) * itemsize t)) \<and>
     color_loop (map_of (weights g)) (sorted_queue (weights g)) ([], [], neighbors g, Map.empty)
        = Inr (ps, bs, nb, st') \<and>
     length bs = length ps \<and>
     \<Union> (set ps) = {\<lparr>td_id = 0, shape = [2, 3], itemsize = 4\<rparr>, \<lparr>td_id = 1, shape = [], itemsize = 8\<rparr>} \<and>
     (\<forall>k < length ps. buf_color (bs ! k) = int k \<and>
        (\<forall>t \<in> ps ! k. st' t = Some (bs ! k))) \<and>
     (\<forall>k < length ps. \<exists>u \<in> ps ! k. buf_size (bs ! k) = weight u \<and>
        (\<forall>t \<in> ps ! k. weight t \<le> weight u)) \<and>
     color g Map.empty = Inr ((sum_list (map buf_size bs), bs), g\<lparr>neighbors := nb\<rparr>, st')) \<and>
   (case InterferenceGraph_init
       [(0::nat, [\<lparr>td_id = 0, shape = [2, 3], itemsize = 4\<rparr>, \<lparr>td_id = 1, shape = [], itemsize = 8\<rparr>])] of
      Inl e \<Rightarrow> False
    | Inr g \<Rightarrow>
       (case color g Map.empty of
          Inl e \<Rightarrow> False
        | Inr ((mem, bs), g', st') \<Rightarrow>
            mem = 32 \<and> bs = [new_Buffer 0 24, new_Buffer 1 8] \<and>
            st' \<lparr>td_id = 0, shape = [2, 3], itemsize = 4\<rparr> = Some (new_Buffer 0 24) \<and>
            st' \<lparr>td_id = 1, shape = [], itemsize = 8\<rparr> = Some (new_Buffer 1 8)))"
proof -
  let ?L = "[(0::nat, [\<lparr>td_id = 0, shape = [2, 3], itemsize = 4\<rparr>, \<lparr>td_id = 1, shape = [], itemsize = 8\<rparr>])]"
  have a: "\<exists>g ps bs nb st'.
     InterferenceGraph_init ?L = Inr g \<and>
     (\<forall>t \<in> {\<lparr>td_id = 0, shape = [2, 3], itemsize = 4\<rparr>, \<lparr>td_id = 1, shape = [], itemsize = 8\<rparr>}.
        map_of (weights g) t = Some (max 1 (prod_list (shape t)) * itemsize t)) \<and>
     color_loop (map_of (weights g)) (sorted_queue (weights g)) ([], [], neighbors g, Map.empty)
        = Inr (ps, bs, nb, st') \<and>
     length bs = length ps \<and>
     \<Union> (set ps) = {\<lparr>td_id = 0, shape = [2, 3], itemsize = 4\<rparr>, \<lparr>td_id = 1, shape = [], itemsize = 8\<rparr>} \<and>
     (\<forall>k < length ps. buf_color (bs ! k) = int k \<and>
        (\<forall>t \<in> ps ! k. st' t = Some (bs ! k))) \<and>
     (\<forall>k < length ps. \<exists>u \<in> ps ! k. buf_size (bs ! k) = weight u \<and>
        (\<forall>t \<in> ps ! k. weight t \<le> weight u)) \<and>
     color g Map.empty = Inr ((sum_list (map buf_size bs), bs), g\<lparr>neighbors := nb\<rparr>, st')"
    using color_buffer_sizes [of ?L Map.empty] by simp
  have b: "(case InterferenceGraph_init ?L of
      Inl e \<Rightarrow> False
    | Inr g \<Rightarrow>
       (case color g Map.empty of
          Inl e \<Rightarrow> False
        | Inr ((mem, bs), g', st') \<Rightarrow>
            mem = 32 \<and> bs = [new_Buffer 0 24, new_Buffer 1 8] \<and>
            st' \<lparr>td_id = 0, shape = [2, 3], itemsize = 4\<rparr> = Some (new_Buffer 0 24) \<and>
            st' \<lparr>td_id = 1, shape = [], itemsize = 8\<rparr> = Some (new_Buffer 1 8)))"
    by (simp add: InterferenceGraph_init_def color_def sorted_queue_def weight_def
        py_index_def new_Buffer_def set_buffers_def Let_def)
  show ?thesis using a b by (rule conjI)
qed

subsection \<open>A second call of color on the same graph\<close>

lemma color_loop_frame:
  assumes base: "distinct q" "\<forall>x \<in> set q. nb x = Some (E x) \<and> w x = Some (W x)"
      "length bs = length ps"
    and run: "color_loop w q (ps, bs, nb, st) = Inr (ps', bs', nb', st')"
    and x: "x \<notin> set q"
  shows "nb' x = nb x"
proof -
  let ?P = "\<lambda>q' (s :: 'a set list \<times> Buffer list \<times> ('a \<rightharpoonup> 'a set) \<times> ('a \<rightharpoonup> Buffer)).
      x \<notin> set q' \<and> fst (snd (snd s)) x = nb x"
  have "\<exists>s'. color_loop w q (ps, bs, nb, st) = Inr s' \<and> ?P [] s'"
    using base
  proof (rule color_loop_invariant[where P = ?P])
    show "?P q (ps, bs, nb, st)" using x by simp
  next
    fix u q' ps bs nb1 st A S b
    assume "?P (u # q') (ps, bs, nb1, st)"
    then show "?P (filter (\<lambda>x. x \<notin> S) q')
        (ps @ [S], bs @ [b], nb1(u \<mapsto> E u \<union> \<Union> (E ` set A)), set_buffers S b st)"
      by auto
  qed
  then show ?thesis using run by auto
qed

lemma set_buffers_map_add:
  "set_buffers S b st = st ++ (\<lambda>t. if t \<in> S then Some b else None)"
  by (auto simp: set_buffers_def map_add_def)

lemma color_loop_again:
  assumes irr: "\<And>x. x \<notin> E x" and sym: "\<And>x y. y \<in> E x \<Longrightarrow> x \<in> E y"
  shows "distinct q \<Longrightarrow> \<forall>x \<in> set q. nb x = Some (E x) \<and> w x = Some (W x) \<Longrightarrow>
     length bs = length ps \<Longrightarrow>
     color_loop w q (ps, bs, nb, st) = Inr (ps', bs', nb', st') \<Longrightarrow>
     \<exists>m. st' = st ++ m \<and>
       (\<forall>st2. color_loop w q (ps, bs, nb', st2) = Inr (ps', bs', nb', st2 ++ m))"
proof (induction "length q" arbitrary: q ps bs nb st rule: less_induct)
  case less
  show ?case
  proof (cases q)
    case Nil
    then have "ps' = ps" "bs' = bs" "nb' = nb" "st' = st" using less.prems(4) by simp_all
    then have "st' = st ++ Map.empty \<and>
       (\<forall>st2. color_loop w q (ps, bs, nb', st2) = Inr (ps', bs', nb', st2 ++ Map.empty))"
      using Nil by simp
    then show ?thesis by blast
  next
    case (Cons u q0)
    define A where "A = accepted E q0 (E u)"
    define S where "S = insert u (set A)"
    define b where "b = new_Buffer (int (length ps)) (W u)"
    define q1 where "q1 = filter (\<lambda>x. x \<notin> S) q0"
    define N' where "N' = E u \<union> \<Union> (E ` set A)"
    define nb1 where "nb1 = nb(u \<mapsto> N')"
    have u: "nb u = Some (E u)" "w u = Some (W u)" "u \<notin> set q0"
      using less.prems Cons by auto
    have Asub: "set A \<subseteq> set q0" unfolding A_def by (rule accepted_subset)
    have acc: "\<forall>x \<in> set A. nb x = Some (E x)"
      using less.prems(2) Cons Asub by auto
    have unfold: "color_loop w q (ps, bs, nb, st) =
        color_loop w q1 (ps @ [S], bs @ [b], nb1, set_buffers S b st)"
      unfolding Cons q1_def S_def b_def nb1_def N'_def A_def
      using u(1) acc[unfolded A_def] u(3) u(2) less.prems(3) by (rule color_loop_step)
    have run1: "color_loop w q1 (ps @ [S], bs @ [b], nb1, set_buffers S b st) = Inr (ps', bs', nb', st')"
      using unfold less.prems(4) by simp
    have l1: "length q1 < length q" by (simp add: q1_def Cons less_Suc_eq_le)
    have d1: "distinct q1" using less.prems(1) Cons by (simp add: q1_def)
    have b1: "\<forall>x \<in> set q1. nb1 x = Some (E x) \<and> w x = Some (W x)"
      using less.prems(2) Cons u(3) by (auto simp: q1_def nb1_def)
    have len1: "length (bs @ [b]) = length (ps @ [S])" using less.prems(3) by simp
    from less.hyps[OF l1 d1 b1 len1 run1] obtain m1 where
      m1: "st' = set_buffers S b st ++ m1"
      and again1: "\<forall>st2. color_loop w q1 (ps @ [S], bs @ [b], nb', st2) = Inr (ps', bs', nb', st2 ++ m1)"
      by blast
    have fr: "nb' x = nb1 x" if "x \<notin> set q1" for x
      using d1 b1 len1 run1 that by (rule color_loop_frame)
    have "u \<notin> set q1" using u(3) by (simp add: q1_def)
    then have nu: "nb' u = Some N'" using fr[of u] by (simp add: nb1_def)
    have nA: "\<forall>x \<in> set A. nb' x = Some (E x)"
    proof
      fix x assume xA: "x \<in> set A"
      then have "x \<notin> set q1" by (simp add: q1_def S_def)
      moreover have "x \<noteq> u" using xA Asub u(3) by auto
      ultimately show "nb' x = Some (E x)" using fr[of x] acc xA by (simp add: nb1_def)
    qed
    have same: "accepted E q0 N' = A"
      unfolding A_def
      using irr sym
    proof (rule accepted_enlarge)
      show "E u \<subseteq> N'" by (auto simp: N'_def)
      show "N' \<subseteq> E u \<union> \<Union> (E ` set (accepted E q0 (E u)))" by (simp add: N'_def A_def)
    qed
    have N'': "N' \<union> \<Union> (E ` set A) = N'" by (auto simp: N'_def)
    have step2: "color_loop w (u # q0) (ps, bs, nb', st2) =
        color_loop w q1 (ps @ [S], bs @ [b], nb', set_buffers S b st2)" for st2
    proof -
      have "color_loop w (u # q0) (ps, bs, nb', st2) =
        color_loop w (filter (\<lambda>x. x \<notin> insert u (set (accepted E q0 N'))) q0)
         (ps @ [insert u (set (accepted E q0 N'))],
          bs @ [new_Buffer (int (length ps)) (W u)],
          nb'(u \<mapsto> N' \<union> \<Union> (E ` set (accepted E q0 N'))),
          set_buffers (insert u (set (accepted E q0 N'))) (new_Buffer (int (length ps)) (W u)) st2)"
        using nu nA[folded same] u(3) u(2) less.prems(3) by (rule color_loop_step)
      moreover have "nb'(u \<mapsto> N') = nb'" using nu by (rule map_upd_triv)
      ultimately show ?thesis
        unfolding same N'' by (simp add: q1_def S_def b_def)
    qed
    let ?m = "(\<lambda>t. if t \<in> S then Some b else None) ++ m1"
    have "st' = st ++ ?m" using m1 by (simp add: set_buffers_map_add)
    moreover have "color_loop w q (ps, bs, nb', st2) = Inr (ps', bs', nb', st2 ++ ?m)" for st2
      using step2[of st2] again1 by (simp add: Cons set_buffers_map_add)
    ultimately show ?thesis by blast
  qed
qed

text \<open>
  Claim C10, as the code has it. \<open>color\<close> changes the neighbour sets in place: when it
  returns, the set of the head of each partition is the union of the sets of all the
  members, and the set of every other member is as it was. A second call on the same
  graph reads these larger sets, and yet builds the same partitions and buffers, returns
  the same total, and leaves graph and store as they are. (The live sets are sets: each
  has no element twice.)
\<close>

theorem color_twice:
  fixes lives :: "('op \<times> TensorDescription list) list"
  assumes dl: "\<forall>(i, l) \<in> set lives. distinct l"
  shows "\<exists>g ps bs nb st1 mem.
     InterferenceGraph_init lives = Inr g \<and>
     color_loop (map_of (weights g)) (sorted_queue (weights g)) ([], [], neighbors g, st)
        = Inr (ps, bs, nb, st1) \<and>
     (\<forall>S \<in> set ps. \<exists>u \<in> S. nb u = Some (\<Union>t \<in> S. neighbor_set g t) \<and>
        (\<forall>x \<in> S. x \<noteq> u \<longrightarrow> nb x = neighbors g x)) \<and>
     color g st = Inr ((mem, bs), g\<lparr>neighbors := nb\<rparr>, st1) \<and>
     color_loop (map_of (weights g)) (sorted_queue (weights g)) ([], [], nb, st1)
        = Inr (ps, bs, nb, st1) \<and>
     color (g\<lparr>neighbors := nb\<rparr>) st1 = Inr ((mem, bs), g\<lparr>neighbors := nb\<rparr>, st1)"
proof -
  let ?E = "adj (live_edges lives)"
  let ?ks = "live_keys lives"
  from color_run[of lives st] obtain g ps bs nb st1 where
    g: "InterferenceGraph_init lives = Inr g"
    and w: "weights g = map (\<lambda>x. (x, weight x)) ?ks"
    and n: "\<forall>x. neighbors g x = (if x \<in> set ?ks then Some (?E x) else None)"
    and r: "color_loop (map_of (weights g)) (sorted_queue (weights g)) ([], [], neighbors g, st)
        = Inr (ps, bs, nb, st1)"
    and c: "color g st = Inr ((sum_list (map buf_size bs), bs), g\<lparr>neighbors := nb\<rparr>, st1)"
    and inv: "color_inv ?E weight (set ?ks) [] (ps, bs, nb, st1)"
    by blast
  let ?q = "sorted_queue (weights g)"
  have q: "?q = sort_key (\<lambda>x. - weight x) ?ks" by (simp add: w sorted_queue_pairs)
  have K: "set ?ks = \<Union> (set ps)" using inv by (simp add: color_inv_def)
  have absorb: "\<exists>u \<in> S. nb u = Some (\<Union>t \<in> S. neighbor_set g t) \<and>
        (\<forall>x \<in> S. x \<noteq> u \<longrightarrow> nb x = neighbors g x)" if S: "S \<in> set ps" for S
  proof -
    from S obtain k where k: "k < length ps" "ps ! k = S" by (auto simp: in_set_conv_nth)
    have "part_ok ?E weight nb st1 S (bs ! k)"
      using color_inv_partition[OF inv k(1)] k(2) by simp
    then obtain u where u: "u \<in> S" "nb u = Some (\<Union> (?E ` S))"
      "\<forall>x \<in> S. x \<noteq> u \<longrightarrow> nb x = Some (?E x)"
      unfolding part_ok_def by blast
    have e: "neighbors g x = Some (?E x)" "neighbor_set g x = ?E x" if "x \<in> S" for x
      using that S K n by (auto simp: neighbor_set_def)
    have "(\<Union>t \<in> S. neighbor_set g t) = \<Union> (?E ` S)" using e(2) by simp
    then show ?thesis using u e(1) by auto
  qed
  have "\<exists>m. st1 = st ++ m \<and>
       (\<forall>st2. color_loop (map_of (weights g)) ?q ([], [], nb, st2) = Inr (ps, bs, nb, st2 ++ m))"
  proof (rule color_loop_again[where E = ?E and W = weight and nb = "neighbors g"])
    show "\<And>x. x \<notin> ?E x" using dl by (rule adj_irrefl)
    show "\<And>x y. y \<in> ?E x \<Longrightarrow> x \<in> ?E y" by (simp add: adj_sym)
    show "distinct ?q" by (simp add: q live_keys_def distinct_dict_keys)
    show "\<forall>x\<in>set ?q. neighbors g x = Some (?E x) \<and> map_of (weights g) x = Some (weight x)"
      using n by (simp add: q) (simp add: w map_of_pairs)
    show "length ([]::Buffer list) = length ([]::TensorDescription set list)" by simp
    show "color_loop (map_of (weights g)) ?q ([], [], neighbors g, st) = Inr (ps, bs, nb, st1)"
      by (rule r)
  qed
  then obtain m where m: "st1 = st ++ m"
    and a: "\<forall>st2. color_loop (map_of (weights g)) ?q ([], [], nb, st2) = Inr (ps, bs, nb, st2 ++ m)"
    by blast
  have "st1 ++ m = st1" by (auto simp: m map_add_def split: option.splits)
  then have r2: "color_loop (map_of (weights g)) ?q ([], [], nb, st1) = Inr (ps, bs, nb, st1)"
    using a by simp
  then have c2: "color (g\<lparr>neighbors := nb\<rparr>) st1 =
      Inr ((sum_list (map buf_size bs), bs), g\<lparr>neighbors := nb\<rparr>, st1)"
    by (simp add: color_def)
  show ?thesis using g r absorb c r2 c2 by blast
qed

theorem color_twice_witness:
  "\<exists>g ps bs nb st1 mem.
     InterferenceGraph_init ex_lives = Inr g \<and>
     color_loop (map_of (weights g)) (sorted_queue (weights g)) ([], [], neighbors g, Map.empty)
        = Inr (ps, bs, nb, st1) \<and>
     (\<forall>S \<in> set ps. \<exists>u \<in> S. nb u = Some (\<Union>t \<in> S. neighbor_set g t) \<and>
        (\<forall>x \<in> S. x \<noteq> u \<longrightarrow> nb x = neighbors g x)) \<and>
     color g Map.empty = Inr ((mem, bs), g\<lparr>neighbors := nb\<rparr>, st1) \<and>
     color_loop (map_of (weights g)) (sorted_queue (weights g)) ([], [], nb, st1)
        = Inr (ps, bs, nb, st1) \<and>
     color (g\<lparr>neighbors := nb\<rparr>) st1 = Inr ((mem, bs), g\<lparr>neighbors := nb\<rparr>, st1)"
  using color_twice [of ex_lives Map.empty]
  by (simp add: ex_lives_def tA_def tB_def tC_def tD_def)

text \<open>
  The claim as it is written fails on the example: the first call enlarges the
  neighbour set of \<open>tA\<close> from \<open>{tB}\<close> to \<open>{tB, tD}\<close>, the second call starts from the
  enlarged sets, and its partitions, its buffers and its total are those of the first.
\<close>

theorem color_twice_counterexample:
  "(case InterferenceGraph_init ex_lives of
      Inl e \<Rightarrow> False
    | Inr g \<Rightarrow>
       (case color_loop (map_of (weights g)) (sorted_queue (weights g))
               ([], [], neighbors g, Map.empty) of
          Inl e \<Rightarrow> False
        | Inr (ps, bs, nb, st1) \<Rightarrow>
            neighbors g tA = Some {tB} \<and> nb tA = Some {tB, tD} \<and>
            ps = [{tA, tC}, {tB, tD}] \<and> sum_list (map buf_size bs) = 7 \<and>
            (case color_loop (map_of (weights g)) (sorted_queue (weights g))
                    ([], [], nb, st1) of
               Inl e \<Rightarrow> False
             | Inr (ps2, bs2, nb2, st2) \<Rightarrow>
                 ps2 = ps \<and> bs2 = bs \<and>
                 sum_list (map buf_size bs2) = sum_list (map buf_size bs))))"
  by (simp add: InterferenceGraph_init_def sorted_queue_def weight_def
      py_index_def new_Buffer_def ex_lives_def tA_def tB_def tC_def tD_def insert_commute)

section \<open>The topological sort\<close>

subsection \<open>Dicts\<close>

lemma lookup_Inr: "lookup d k = Inr v \<longleftrightarrow> map_of d k = Some v"
  by (simp add: lookup_def split: option.splits)

lemma map_fst_dict_set: "k \<in> fst ` set d \<Longrightarrow> map fst (dict_set k v d) = map fst d"
  by (induction d) force+

lemma map_of_dict_set: "map_of (dict_set k v d) = (map_of d)(k \<mapsto> v)"
  by (induction d) auto

lemma set_set_add: "set (set_add x xs) = insert x (set xs)"
  by (auto simp: set_add_def)

text \<open>The set that a dict of sets holds at a key.\<close>

definition vals :: "('a \<times> 'b list) list \<Rightarrow> 'a \<Rightarrow> 'b set" where
  "vals d k = (case map_of d k of None \<Rightarrow> {} | Some s \<Rightarrow> set s)"

lemma invert_add_result:
  assumes "y \<in> fst ` set result"
  shows "\<exists>r'. invert_add x y result = Inr r' \<and> map fst r' = map fst result \<and>
     (\<forall>k. vals r' k = vals result k \<union> (if k = y then {x} else {}))"
proof -
  from assms obtain s where s: "map_of result y = Some s"
    by (metis domD dom_map_of_conv_image_fst)
  have "invert_add x y result = Inr (dict_set y (set_add x s) result)"
    using s by (simp add: invert_add_def lookup_def)
  moreover have "map fst (dict_set y (set_add x s) result) = map fst result"
    using assms by (rule map_fst_dict_set)
  moreover have "vals (dict_set y (set_add x s) result) k =
      vals result k \<union> (if k = y then {x} else {})" for k
    using s by (simp add: vals_def map_of_dict_set set_set_add)
  ultimately show ?thesis by simp
qed

lemma invert_inner:
  "set others \<subseteq> fst ` set result \<Longrightarrow>
   \<exists>r'. foldM (invert_add x) others result = Inr r' \<and> map fst r' = map fst result \<and>
     (\<forall>k. vals r' k = vals result k \<union> (if k \<in> set others then {x} else {}))"
proof (induction others arbitrary: result)
  case Nil
  then show ?case by simp
next
  case (Cons y others)
  from Cons.prems have "y \<in> fst ` set result" by simp
  from invert_add_result[OF this, of x] obtain r1 where
    r1: "invert_add x y result = Inr r1" "map fst r1 = map fst result"
      "\<forall>k. vals r1 k = vals result k \<union> (if k = y then {x} else {})" by blast
  have "fst ` set r1 = fst ` set result" using r1(2) by (metis set_map)
  then have "set others \<subseteq> fst ` set r1" using Cons.prems by simp
  from Cons.IH[OF this] obtain r' where
    r': "foldM (invert_add x) others r1 = Inr r'" "map fst r' = map fst r1"
      "\<forall>k. vals r' k = vals r1 k \<union> (if k \<in> set others then {x} else {})" by blast
  have "foldM (invert_add x) (y # others) result = Inr r'" using r1(1) r'(1) by simp
  moreover have "map fst r' = map fst result" using r1(2) r'(2) by simp
  moreover have "vals r' k = vals result k \<union> (if k \<in> set (y # others) then {x} else {})" for k
    using r1(3) r'(3) by auto
  ultimately show ?case by blast
qed

lemma invert_outer:
  "\<forall>(x, others) \<in> set items. set others \<subseteq> fst ` set result \<Longrightarrow>
   \<exists>r'. foldM (\<lambda>(x, others). foldM (invert_add x) others) items result = Inr r' \<and>
     map fst r' = map fst result \<and>
     (\<forall>k. vals r' k = vals result k \<union> {x. \<exists>others. (x, others) \<in> set items \<and> k \<in> set others})"
proof (induction items arbitrary: result)
  case Nil
  then show ?case by simp
next
  case (Cons it items)
  obtain x others where it: "it = (x, others)" by (cases it)
  have "set others \<subseteq> fst ` set result" using Cons.prems it by simp
  from invert_inner[OF this, of x] obtain r1 where
    r1: "foldM (invert_add x) others result = Inr r1" "map fst r1 = map fst result"
      "\<forall>k. vals r1 k = vals result k \<union> (if k \<in> set others then {x} else {})" by blast
  have "fst ` set r1 = fst ` set result" using r1(2) by (metis set_map)
  then have "\<forall>(x, others) \<in> set items. set others \<subseteq> fst ` set r1" using Cons.prems by simp
  from Cons.IH[OF this] obtain r' where
    r': "foldM (\<lambda>(x, others). foldM (invert_add x) others) items r1 = Inr r'"
      "map fst r' = map fst r1"
      "\<forall>k. vals r' k = vals r1 k \<union> {x. \<exists>others. (x, others) \<in> set items \<and> k \<in> set others}"
    by blast
  have "foldM (\<lambda>(x, others). foldM (invert_add x) others) (it # items) result = Inr r'"
    using r1(1) r'(1) it by simp
  moreover have "map fst r' = map fst result" using r1(2) r'(2) by simp
  moreover have "vals r' k = vals result k \<union>
      {x. \<exists>others. (x, others) \<in> set (it # items) \<and> k \<in> set others}" for k
    using r1(3) r'(3) it by auto
  ultimately show ?case by blast
qed

text \<open>A successors dict whose values are nodes of the dict.\<close>

definition closed_graph :: "'a adjacency \<Rightarrow> bool" where
  "closed_graph succs \<longleftrightarrow>
     distinct (map fst succs) \<and>
     (\<forall>(v, ws) \<in> set succs. set ws \<subseteq> fst ` set succs)"

lemma inputs_result:
  fixes succs :: "'a adjacency"
  assumes "closed_graph succs"
  shows "\<exists>ins. inputs succs = Inr ins \<and> distinct ins \<and>
     set ins = {v \<in> fst ` set succs. \<forall>u. (u, v) \<notin> edge_set succs}"
proof -
  let ?r0 = "map (\<lambda>x. (x, []::'a list)) (map fst succs)"
  have k0: "map fst ?r0 = map fst succs" by (simp add: comp_def)
  have c: "\<forall>(x, others) \<in> set succs. set others \<subseteq> fst ` set ?r0"
    using assms by (auto simp: closed_graph_def image_comp comp_def)
  have "\<exists>r'. foldM (\<lambda>(x, others). foldM (invert_add x) others) succs ?r0 = Inr r' \<and>
     map fst r' = map fst ?r0 \<and>
     (\<forall>k. vals r' k = vals ?r0 k \<union> {x. \<exists>others. (x, others) \<in> set succs \<and> k \<in> set others})"
    using c by (rule invert_outer)
  then obtain r' where
    r': "foldM (\<lambda>(x, others). foldM (invert_add x) others) succs ?r0 = Inr r'"
      "map fst r' = map fst ?r0"
      "\<forall>k. vals r' k = vals ?r0 k \<union> {x. \<exists>others. (x, others) \<in> set succs \<and> k \<in> set others}"
    by blast
  have v0: "vals ?r0 k = {}" for k
  proof -
    have "map_of ?r0 k = Some s \<Longrightarrow> s = []" for s
      by (auto dest!: map_of_SomeD)
    then show ?thesis by (auto simp: vals_def split: option.splits)
  qed
  have v: "vals r' k = {u. (u, k) \<in> edge_set succs}" for k
    using r'(3) v0 by (auto simp: edge_set_def)
  have keys: "map fst r' = map fst succs" using r'(2) k0 by simp
  have d: "distinct (map fst r')" using keys assms by (simp add: closed_graph_def)
  have inv: "invert succs = Inr r'" using r'(1) by (simp add: invert_def)
  let ?ins = "map fst (filter (\<lambda>(u, vs). length vs = 0) r')"
  have "inputs succs = Inr ?ins" using inv by (simp add: inputs_def)
  moreover have "distinct ?ins" using d by (simp add: distinct_map_filter)
  moreover have "set ?ins = {v \<in> fst ` set succs. \<forall>u. (u, v) \<notin> edge_set succs}"
  proof -
    have "vals r' a = set b" if "(a, b) \<in> set r'" for a b
      using that d by (simp add: vals_def)
    then have "set ?ins = {k \<in> fst ` set r'. vals r' k = {}}"
      by (auto simp: image_iff)
    also have "fst ` set r' = fst ` set succs" using keys by (metis set_map)
    finally show ?thesis using v by auto
  qed
  ultimately show ?thesis by blast
qed

subsection \<open>Descendants in an acyclic graph\<close>

text \<open>The nodes that a node reaches along one edge or more.\<close>

definition descendants :: "'a adjacency \<Rightarrow> 'a \<Rightarrow> 'a set" where
  "descendants succs u = (edge_set succs)\<^sup>+ `` {u}"

lemma edge_set_nodes:
  assumes "closed_graph g" and "(v, w) \<in> edge_set g"
  shows "v \<in> fst ` set g" and "w \<in> fst ` set g"
proof -
  from assms(2) obtain ws where ws: "(v, ws) \<in> set g" "w \<in> set ws"
    by (auto simp: edge_set_def)
  show "v \<in> fst ` set g" using ws(1) by force
  have "set ws \<subseteq> fst ` set g" using assms(1) ws(1) by (auto simp: closed_graph_def)
  then show "w \<in> fst ` set g" using ws(2) by blast
qed

lemma edge_set_lookup:
  assumes "closed_graph g" and "u \<in> fst ` set g"
  shows "\<exists>ws. lookup g u = Inr ws \<and> set ws = edge_set g `` {u}"
proof -
  from assms(2) obtain ws where ws: "(u, ws) \<in> set g" by auto
  have d: "distinct (map fst g)" using assms(1) by (simp add: closed_graph_def)
  then have m: "map_of g u = Some ws" using ws by simp
  have "(u, ws') \<in> set g \<Longrightarrow> ws' = ws" for ws'
    using d m by simp
  then have "edge_set g `` {u} = set ws" using ws unfolding edge_set_def by blast
  then show ?thesis using m by (simp add: lookup_def)
qed

lemma descendants_nodes:
  assumes "closed_graph g"
  shows "descendants g u \<subseteq> fst ` set g"
proof
  fix x assume "x \<in> descendants g u"
  then have "(u, x) \<in> (edge_set g)\<^sup>+" by (simp add: descendants_def)
  then obtain y where "(y, x) \<in> edge_set g" by (cases rule: tranclE) blast+
  then show "x \<in> fst ` set g" using assms by (rule edge_set_nodes(2)[rotated])
qed

lemma finite_descendants: "closed_graph g \<Longrightarrow> finite (descendants g u)"
  by (rule finite_subset[OF descendants_nodes]) simp_all

lemma descendants_unfold:
  "descendants g u = (\<Union>w \<in> edge_set g `` {u}. insert w (descendants g w))"
proof -
  have "(u, x) \<in> (edge_set g)\<^sup>+ \<longleftrightarrow>
      (\<exists>w. (u, w) \<in> edge_set g \<and> (w = x \<or> (w, x) \<in> (edge_set g)\<^sup>+))" for x
  proof
    assume "(u, x) \<in> (edge_set g)\<^sup>+"
    then show "\<exists>w. (u, w) \<in> edge_set g \<and> (w = x \<or> (w, x) \<in> (edge_set g)\<^sup>+)"
      by (cases rule: converse_tranclE) blast+
  next
    assume "\<exists>w. (u, w) \<in> edge_set g \<and> (w = x \<or> (w, x) \<in> (edge_set g)\<^sup>+)"
    then show "(u, x) \<in> (edge_set g)\<^sup>+"
      by (blast intro: r_into_trancl trancl_into_trancl2)
  qed
  then show ?thesis unfolding descendants_def by blast
qed

lemma descendants_card:
  assumes "closed_graph g" and "acyclic (edge_set g)" and "(u, w) \<in> edge_set g"
  shows "card (descendants g w) < card (descendants g u)"
proof -
  have "descendants g w \<subseteq> descendants g u"
  proof
    fix x assume "x \<in> descendants g w"
    then have "(w, x) \<in> (edge_set g)\<^sup>+" by (simp add: descendants_def)
    with assms(3) have "(u, x) \<in> (edge_set g)\<^sup>+" by (rule trancl_into_trancl2)
    then show "x \<in> descendants g u" by (simp add: descendants_def)
  qed
  moreover have "w \<in> descendants g u" using assms(3) by (simp add: descendants_def r_into_trancl)
  moreover have "w \<notin> descendants g w" using assms(2) by (simp add: descendants_def acyclic_def)
  ultimately have "descendants g w \<subset> descendants g u" by blast
  then show ?thesis using finite_descendants[OF assms(1)] by (rule psubset_card_mono[rotated])
qed

lemma descendants_card_nodes:
  assumes "closed_graph g" and "acyclic (edge_set g)" and "u \<in> fst ` set g"
  shows "card (descendants g u) < length g"
proof -
  have "u \<notin> descendants g u" using assms(2) by (simp add: descendants_def acyclic_def)
  then have "descendants g u \<subset> fst ` set g" using descendants_nodes[OF assms(1), of u] assms(3) by blast
  then have "card (descendants g u) < card (fst ` set g)"
    by (simp add: psubset_card_mono)
  also have "\<dots> \<le> length g" by (metis card_length length_map set_map)
  finally show ?thesis .
qed

text \<open>Every node is an input or a descendant of an input.\<close>

lemma reached_from_inputs:
  assumes c: "closed_graph g" and a: "acyclic (edge_set g)" and x: "x \<in> fst ` set g"
  shows "\<exists>i \<in> fst ` set g. (\<forall>u. (u, i) \<notin> edge_set g) \<and> (x = i \<or> x \<in> descendants g i)"
proof -
  have "finite (edge_set g)"
  proof (rule finite_subset)
    show "edge_set g \<subseteq> (fst ` set g) \<times> (fst ` set g)"
    proof
      fix e assume e: "e \<in> edge_set g"
      obtain v w where vw: "e = (v, w)" by (cases e)
      show "e \<in> (fst ` set g) \<times> (fst ` set g)"
        using edge_set_nodes[OF c, of v w] e vw by simp
    qed
    show "finite ((fst ` set g) \<times> (fst ` set g))" by simp
  qed
  then have "wf (edge_set g)" using a by (rule finite_acyclic_wf)
  then show ?thesis using x
  proof (induction x rule: wf_induct_rule)
    case (less x)
    show ?case
    proof (cases "\<exists>u. (u, x) \<in> edge_set g")
      case False
      then show ?thesis using less.prems by blast
    next
      case True
      then obtain u where u: "(u, x) \<in> edge_set g" by blast
      then have "u \<in> fst ` set g" using c by (rule edge_set_nodes(1)[rotated])
      from less.IH[OF u this] obtain i where i: "i \<in> fst ` set g" "\<forall>u. (u, i) \<notin> edge_set g"
        "u = i \<or> u \<in> descendants g i" by blast
      have "x \<in> descendants g i"
      proof (cases "u = i")
        case True
        then show ?thesis using u by (simp add: descendants_def r_into_trancl)
      next
        case False
        then have "(i, u) \<in> (edge_set g)\<^sup>+" using i(3) by (simp add: descendants_def)
        then have "(i, x) \<in> (edge_set g)\<^sup>+" using u by (rule trancl_into_trancl)
        then show ?thesis by (simp add: descendants_def)
      qed
      then show ?thesis using i(1,2) by blast
    qed
  qed
qed

subsection \<open>The depth-first search\<close>

text \<open>
  The invariant of the search: the result lists the visited nodes once each, the
  successors of a visited node are visited, and a visited node stands before each of its
  successors.
\<close>

definition topo_inv :: "'a adjacency \<Rightarrow> 'a set \<Rightarrow> 'a list \<Rightarrow> bool" where
  "topo_inv g vis r \<longleftrightarrow>
     set r = vis \<and> distinct r \<and>
     (\<forall>(v, w) \<in> edge_set g. v \<in> vis \<longrightarrow> w \<in> vis \<and> precedes v w r)"

lemma topo_inv_descendants:
  assumes "topo_inv g vis r" and "u \<in> vis"
  shows "descendants g u \<subseteq> vis"
proof
  fix x assume "x \<in> descendants g u"
  then have "(u, x) \<in> (edge_set g)\<^sup>+" by (simp add: descendants_def)
  then show "x \<in> vis"
  proof (induction rule: trancl_induct)
    case (base y)
    then show ?case using assms by (auto simp: topo_inv_def)
  next
    case (step y z)
    then show ?case using assms(1) by (auto simp: topo_inv_def)
  qed
qed

lemma for_each_spec:
  assumes body: "\<And>x vis r. x \<in> set xs \<Longrightarrow> topo_inv g vis r \<Longrightarrow>
      \<exists>r'. body x (vis, r) = Some (Inr (vis \<union> insert x (descendants g x), r')) \<and>
        topo_inv g (vis \<union> insert x (descendants g x)) r'"
    and inv: "topo_inv g vis r"
  shows "\<exists>r'. for_each body xs (vis, r) =
        Some (Inr (vis \<union> (\<Union>x \<in> set xs. insert x (descendants g x)), r')) \<and>
      topo_inv g (vis \<union> (\<Union>x \<in> set xs. insert x (descendants g x))) r'"
  using assms
proof (induction xs arbitrary: vis r)
  case Nil
  then show ?case by simp
next
  case (Cons x xs)
  from Cons.prems(1)[of x vis r] Cons.prems(2) obtain r1 where
    r1: "body x (vis, r) = Some (Inr (vis \<union> insert x (descendants g x), r1))"
      "topo_inv g (vis \<union> insert x (descendants g x)) r1" by auto
  have "\<exists>r'. for_each body xs (vis \<union> insert x (descendants g x), r1) =
        Some (Inr ((vis \<union> insert x (descendants g x)) \<union>
           (\<Union>x \<in> set xs. insert x (descendants g x)), r')) \<and>
      topo_inv g ((vis \<union> insert x (descendants g x)) \<union>
           (\<Union>x \<in> set xs. insert x (descendants g x))) r'"
  proof (rule Cons.IH)
    show "\<And>y vis r. y \<in> set xs \<Longrightarrow> topo_inv g vis r \<Longrightarrow>
      \<exists>r'. body y (vis, r) = Some (Inr (vis \<union> insert y (descendants g y), r')) \<and>
        topo_inv g (vis \<union> insert y (descendants g y)) r'"
      using Cons.prems(1) by simp
    show "topo_inv g (vis \<union> insert x (descendants g x)) r1" by (rule r1(2))
  qed
  moreover have "(vis \<union> insert x (descendants g x)) \<union> (\<Union>x \<in> set xs. insert x (descendants g x))
      = vis \<union> (\<Union>x \<in> set (x # xs). insert x (descendants g x))" by auto
  ultimately show ?case using r1(1) by simp
qed

lemma precedes_Cons: "v \<noteq> u \<Longrightarrow> precedes v w (u # r) = precedes v w r"
  by simp

lemma visit_correct:
  fixes g :: "'a adjacency" and idf :: "'a \<Rightarrow> 'k::linorder"
  assumes c: "closed_graph g" and a: "acyclic (edge_set g)"
  shows "topo_inv g vis r \<Longrightarrow> u \<in> fst ` set g \<Longrightarrow> card (descendants g u) < n \<Longrightarrow>
     \<exists>r'. visit n idf g (\<lambda>x result. x # result) u (vis, r) =
          Some (Inr (vis \<union> insert u (descendants g u), r')) \<and>
        topo_inv g (vis \<union> insert u (descendants g u)) r'"
proof (induction n arbitrary: u vis r)
  case 0
  then show ?case by simp
next
  case (Suc n)
  show ?case
  proof (cases "u \<in> vis")
    case True
    have e: "vis \<union> insert u (descendants g u) = vis"
      using topo_inv_descendants[OF Suc.prems(1) True] True by blast
    have v: "visit (Suc n) idf g (\<lambda>x result. x # result) u (vis, r) = Some (Inr (vis, r))"
      using True by simp
    show ?thesis unfolding e using v Suc.prems(1) by blast
  next
    case False
    from edge_set_lookup[OF c Suc.prems(2)] obtain ws where
      ws: "lookup g u = Inr ws" "set ws = edge_set g `` {u}" by blast
    define body where "body = (\<lambda>v (st' :: 'a set \<times> 'a list).
        if v \<notin> fst st' then visit n idf g (\<lambda>x result. x # result) v st' else Some (Inr st'))"
    define U where "U = (\<Union>x \<in> set (sort_key idf ws). insert x (descendants g x))"
    have ex: "\<exists>r'. for_each body (sort_key idf ws) (vis, r) =
        Some (Inr (vis \<union> (\<Union>x \<in> set (sort_key idf ws). insert x (descendants g x)), r')) \<and>
      topo_inv g (vis \<union> (\<Union>x \<in> set (sort_key idf ws). insert x (descendants g x))) r'"
    proof (rule for_each_spec)
      show "topo_inv g vis r" by (rule Suc.prems(1))
    next
      fix x vis1 r1
      assume x: "x \<in> set (sort_key idf ws)" and i1: "topo_inv g vis1 r1"
      have e: "(u, x) \<in> edge_set g" using x ws(2) by simp
      have xn: "x \<in> fst ` set g" using c e by (rule edge_set_nodes(2))
      have "card (descendants g x) < card (descendants g u)" using c a e by (rule descendants_card)
      then have cx: "card (descendants g x) < n" using Suc.prems(3) by simp
      show "\<exists>r'. body x (vis1, r1) = Some (Inr (vis1 \<union> insert x (descendants g x), r')) \<and>
              topo_inv g (vis1 \<union> insert x (descendants g x)) r'"
      proof (cases "x \<in> vis1")
        case True
        have e1: "vis1 \<union> insert x (descendants g x) = vis1"
          using topo_inv_descendants[OF i1 True] True by blast
        have "body x (vis1, r1) = Some (Inr (vis1, r1))" using True by (simp add: body_def)
        then show ?thesis unfolding e1 using i1 by blast
      next
        case False
        then have "body x (vis1, r1) = visit n idf g (\<lambda>x result. x # result) x (vis1, r1)"
          by (simp add: body_def)
        then show ?thesis using Suc.IH[OF i1 xn cx] by simp
      qed
    qed
    have Ueq: "U = descendants g u"
      unfolding U_def using ws(2) descendants_unfold[of g u] by simp
    from ex obtain r2 where
      r2: "for_each body (sort_key idf ws) (vis, r) = Some (Inr (vis \<union> descendants g u, r2))"
        "topo_inv g (vis \<union> descendants g u) r2"
      unfolding U_def[symmetric] Ueq by blast
    have un: "u \<notin> descendants g u" using a by (simp add: descendants_def acyclic_def)
    have "visit (Suc n) idf g (\<lambda>x result. x # result) u (vis, r) =
        (case for_each body (sort_key idf ws) (vis, r) of
               None \<Rightarrow> None
             | Some (Inl e) \<Rightarrow> Some (Inl e)
             | Some (Inr (visited, s)) \<Rightarrow> Some (Inr (insert u visited, u # s)))"
      using False ws(1) by (simp add: body_def)
    then have res: "visit (Suc n) idf g (\<lambda>x result. x # result) u (vis, r) =
        Some (Inr (insert u (vis \<union> descendants g u), u # r2))"
      using r2(1) by simp
    have s2: "set r2 = vis \<union> descendants g u" and d2: "distinct r2"
      and o2: "\<forall>(v, w)\<in>edge_set g. v \<in> vis \<union> descendants g u \<longrightarrow>
          w \<in> vis \<union> descendants g u \<and> precedes v w r2"
      using r2(2) by (simp_all add: topo_inv_def)
    have ti: "topo_inv g (insert u (vis \<union> descendants g u)) (u # r2)"
      unfolding topo_inv_def
    proof (intro conjI)
      show "set (u # r2) = insert u (vis \<union> descendants g u)"
        using s2 by simp
      show "distinct (u # r2)" using s2 d2 False un by simp
      show "\<forall>(v, w)\<in>edge_set g. v \<in> insert u (vis \<union> descendants g u) \<longrightarrow>
          w \<in> insert u (vis \<union> descendants g u) \<and> precedes v w (u # r2)"
      proof (clarify)
        fix v w assume e: "(v, w) \<in> edge_set g" and v: "v \<in> insert u (vis \<union> descendants g u)"
        show "w \<in> insert u (vis \<union> descendants g u) \<and> precedes v w (u # r2)"
        proof (cases "v = u")
          case True
          then have "w \<in> descendants g u" using e by (simp add: descendants_def r_into_trancl)
          then show ?thesis using True s2 by simp
        next
          case False
          then have "v \<in> vis \<union> descendants g u" using v by simp
          then have "w \<in> vis \<union> descendants g u \<and> precedes v w r2"
            using o2 e by blast
          then show ?thesis using False by simp
        qed
      qed
    qed
    have eq: "vis \<union> insert u (descendants g u) = insert u (vis \<union> descendants g u)" by simp
    show ?thesis unfolding eq using res ti by blast
  qed
qed

text \<open>
  Claim C4. On a successors dict that holds every successor as a key and has no cycle,
  \<open>topsort\<close> returns (the recursion needs a depth of at most the number of nodes); the
  list holds every node of the graph once, and whenever \<open>w\<close> is in \<open>successors[v]\<close>,
  \<open>v\<close> stands before \<open>w\<close>.
\<close>

theorem topsort_correct:
  fixes succs :: "'a adjacency" and idf :: "'a \<Rightarrow> 'k::linorder"
  assumes c: "closed_graph succs" and a: "acyclic (edge_set succs)"
    and fuel: "length succs \<le> fuel"
  shows "\<exists>r. topsort fuel idf succs = Some (Inr r) \<and>
     set r = fst ` set succs \<and> distinct r \<and>
     (\<forall>(v, w) \<in> edge_set succs. precedes v w r)"
proof -
  let ?g = succs
  from inputs_result[OF c] obtain ins where
    ins: "inputs ?g = Inr ins" "set ins = {v \<in> fst ` set ?g. \<forall>u. (u, v) \<notin> edge_set ?g}"
    by blast
  have i0: "topo_inv ?g {} []" by (simp add: topo_inv_def)
  have "\<exists>r'. for_each (visit fuel idf ?g (\<lambda>x result. x # result)) (sort_key idf ins) ({}, []) =
        Some (Inr ({} \<union> (\<Union>x \<in> set (sort_key idf ins). insert x (descendants ?g x)), r')) \<and>
      topo_inv ?g ({} \<union> (\<Union>x \<in> set (sort_key idf ins). insert x (descendants ?g x))) r'"
  proof (rule for_each_spec)
    show "topo_inv ?g {} []" by (rule i0)
  next
    fix x vis r
    assume x: "x \<in> set (sort_key idf ins)" and i: "topo_inv ?g vis r"
    have xn: "x \<in> fst ` set ?g" using x ins(2) by simp
    have "card (descendants ?g x) < length ?g" using c a xn by (rule descendants_card_nodes)
    then have "card (descendants ?g x) < fuel" using fuel by simp
    with i xn show "\<exists>r'. visit fuel idf ?g (\<lambda>x result. x # result) x (vis, r) =
          Some (Inr (vis \<union> insert x (descendants ?g x), r')) \<and>
        topo_inv ?g (vis \<union> insert x (descendants ?g x)) r'"
      by (rule visit_correct[OF c a])
  qed
  moreover have "(\<Union>x \<in> set (sort_key idf ins). insert x (descendants ?g x)) = fst ` set ?g"
  proof
    show "(\<Union>x \<in> set (sort_key idf ins). insert x (descendants ?g x)) \<subseteq> fst ` set ?g"
    proof
      fix y assume "y \<in> (\<Union>x \<in> set (sort_key idf ins). insert x (descendants ?g x))"
      then obtain x where x: "x \<in> set ins" "y = x \<or> y \<in> descendants ?g x" by auto
      have "x \<in> fst ` set ?g" using x(1) ins(2) by simp
      then show "y \<in> fst ` set ?g" using x(2) descendants_nodes[OF c, of x] by blast
    qed
    show "fst ` set ?g \<subseteq> (\<Union>x \<in> set (sort_key idf ins). insert x (descendants ?g x))"
    proof
      fix x assume "x \<in> fst ` set ?g"
      from reached_from_inputs[OF c a this] obtain i where
        i: "i \<in> fst ` set ?g" "\<forall>u. (u, i) \<notin> edge_set ?g" "x = i \<or> x \<in> descendants ?g i" by blast
      have "i \<in> set (sort_key idf ins)" using ins(2) i(1,2) by simp
      then show "x \<in> (\<Union>x \<in> set (sort_key idf ins). insert x (descendants ?g x))"
        using i(3) by blast
    qed
  qed
  ultimately obtain r where
    r: "for_each (visit fuel idf ?g (\<lambda>x result. x # result)) (sort_key idf ins) ({}, []) =
        Some (Inr (fst ` set ?g, r))" "topo_inv ?g (fst ` set ?g) r" by auto
  have t: "topsort fuel idf ?g = Some (Inr r)"
    using ins(1) r(1) by (simp add: topsort_def dfs_def)
  have "\<forall>(v, w) \<in> edge_set ?g. precedes v w r"
  proof (clarify)
    fix v w assume e: "(v, w) \<in> edge_set ?g"
    then have vn: "v \<in> fst ` set ?g" using c by (rule edge_set_nodes(1)[rotated])
    have "\<forall>(v, w) \<in> edge_set ?g. v \<in> fst ` set ?g \<longrightarrow> w \<in> fst ` set ?g \<and> precedes v w r"
      using r(2) by (simp add: topo_inv_def)
    from bspec[OF this e] vn show "precedes v w r" by simp
  qed
  then show ?thesis using t r(2) by (auto simp: topo_inv_def)
qed

theorem topsort_correct_witness:
  "\<exists>r. topsort 3 (\<lambda>x. x) [(1::nat, [2, 3]), (2, [3]), (3, [])] = Some (Inr r) \<and>
     set r = {1, 2, 3} \<and> distinct r \<and>
     precedes 1 2 r \<and> precedes 1 3 r \<and> precedes 2 3 r"
proof -
  let ?g = "[(1::nat, [2, 3]), (2, [3]), (3, [])]"
  have c: "closed_graph ?g" by (simp add: closed_graph_def)
  have e: "edge_set ?g = {(1, 2), (1, 3), (2, 3)}" by (auto simp: edge_set_def)
  have "edge_set ?g \<subseteq> {(x, y). x < y}" unfolding e by simp
  moreover have "acyclic {(x, y :: nat). x < y}" by (rule wf_acyclic[OF wf_less])
  ultimately have a: "acyclic (edge_set ?g)" by (rule acyclic_subset[rotated])
  have f: "length ?g \<le> 3" by simp
  from topsort_correct[OF c a f, of "\<lambda>x. x"] show ?thesis unfolding e by auto
qed

section \<open>Liveness\<close>

lemma set_set_union: "set (set_union xs ys) = set xs \<union> set ys"
  by (auto simp: set_union_def)

lemma lookup_map_of: "lookup d k = (case map_of d k of None \<Rightarrow> Inl KeyError | Some v \<Rightarrow> Inr v)"
  by (simp add: lookup_def)

lemma dom_fold_dict_set:
  "dom (map_of (fold (\<lambda>op d. dict_set op v d) order d0)) = set order \<union> dom (map_of d0)"
  by (induction order arbitrary: d0) (auto simp: map_of_dict_set)

lemma py_index_last_elem: "order \<noteq> [] \<Longrightarrow> py_index order (- 1) = Inr (last order)"
proof -
  assume n: "order \<noteq> []"
  then have l: "Suc 0 \<le> length order" by (cases order) simp_all
  then have "nat (int (length order) - 1) = length order - 1" by simp
  then show ?thesis using n l by (simp add: py_index_def last_conv_nth)
qed

lemma liveness_step_fold:
  "\<forall>(c, p) \<in> set cps. c \<in> dom (map_of l) \<Longrightarrow>
   \<exists>l'. foldM (liveness_step A) cps l = Inr l' \<and>
     dom (map_of l') = dom (map_of l) \<union> snd ` set cps"
proof (induction cps arbitrary: l)
  case Nil
  then show ?case by simp
next
  case (Cons cp cps)
  obtain c p where cp: "cp = (c, p)" by (cases cp)
  from Cons.prems cp obtain lc where lc: "map_of l c = Some lc" by auto
  let ?l1 = "dict_set p (set_union (uses A c)
      (set_diff lc (dict_keys (map (n_td A) (n_defs A c))))) l"
  have s1: "liveness_step A cp l = Inr ?l1"
    using lc cp by (simp add: liveness_step_def lookup_map_of)
  have d1: "dom (map_of ?l1) = insert p (dom (map_of l))" by (simp add: map_of_dict_set)
  have "\<forall>(c, p) \<in> set cps. c \<in> dom (map_of ?l1)" using Cons.prems d1 by auto
  from Cons.IH[OF this] obtain l' where
    l': "foldM (liveness_step A) cps ?l1 = Inr l'"
      "dom (map_of l') = dom (map_of ?l1) \<union> snd ` set cps" by blast
  have "foldM (liveness_step A) (cp # cps) l = Inr l'" using s1 l'(1) by simp
  moreover have "dom (map_of l') = dom (map_of l) \<union> snd ` set (cp # cps)"
    using l'(2) d1 cp by auto
  ultimately show ?case by blast
qed

lemma liveness_inplace_fold:
  "set xs \<subseteq> dom (map_of l) \<Longrightarrow>
   \<exists>l'. foldM (liveness_inplace A) xs l = Inr l' \<and>
     dom (map_of l') = dom (map_of l) \<and>
     (\<forall>k s. map_of l k = Some s \<longrightarrow> (\<exists>s'. map_of l' k = Some s' \<and> set s \<subseteq> set s')) \<and>
     (\<forall>x \<in> set xs. \<exists>s'. map_of l' x = Some s' \<and> set (uses A x) \<subseteq> set s')"
proof (induction xs arbitrary: l)
  case Nil
  then show ?case by simp
next
  case (Cons x xs)
  from Cons.prems obtain s where s: "map_of l x = Some s" by auto
  let ?l1 = "dict_set x (set_union s (uses A x)) l"
  have s1: "liveness_inplace A x l = Inr ?l1"
    using s by (simp add: liveness_inplace_def can_do_inplace_def lookup_map_of)
  have m1: "map_of ?l1 = (map_of l)(x \<mapsto> set_union s (uses A x))" by (rule map_of_dict_set)
  have d1: "dom (map_of ?l1) = dom (map_of l)" using s m1 by auto
  have "set xs \<subseteq> dom (map_of ?l1)" using Cons.prems d1 by simp
  from Cons.IH[OF this] obtain l' where
    l': "foldM (liveness_inplace A) xs ?l1 = Inr l'"
      "dom (map_of l') = dom (map_of ?l1)"
      "\<forall>k s. map_of ?l1 k = Some s \<longrightarrow> (\<exists>s'. map_of l' k = Some s' \<and> set s \<subseteq> set s')"
      "\<forall>x \<in> set xs. \<exists>s'. map_of l' x = Some s' \<and> set (uses A x) \<subseteq> set s'"
    by blast
  have r: "foldM (liveness_inplace A) (x # xs) l = Inr l'" using s1 l'(1) by simp
  have mono: "\<exists>s'. map_of l' k = Some s' \<and> set t \<subseteq> set s'" if "map_of l k = Some t" for k t
  proof (cases "k = x")
    case True
    then have "map_of ?l1 k = Some (set_union s (uses A x))" using m1 by simp
    then obtain s' where "map_of l' k = Some s'" "set (set_union s (uses A x)) \<subseteq> set s'"
      using l'(3) by blast
    moreover have "t = s" using that True s by simp
    ultimately show ?thesis by (auto simp: set_set_union)
  next
    case False
    then have "map_of ?l1 k = Some t" using m1 that by simp
    then show ?thesis using l'(3) by blast
  qed
  have head: "\<exists>s'. map_of l' x = Some s' \<and> set (uses A x) \<subseteq> set s'"
  proof -
    have "map_of ?l1 x = Some (set_union s (uses A x))" using m1 by simp
    then obtain s' where "map_of l' x = Some s'" "set (set_union s (uses A x)) \<subseteq> set s'"
      using l'(3) by blast
    then show ?thesis by (auto simp: set_set_union)
  qed
  have "\<forall>y \<in> set (x # xs). \<exists>s'. map_of l' y = Some s' \<and> set (uses A y) \<subseteq> set s'"
    using head l'(4) by simp
  moreover have "dom (map_of l') = dom (map_of l)" using l'(2) d1 by simp
  ultimately show ?case using r mono by blast
qed

lemma set_uses: "set (uses A op) = n_td A ` set (n_args A op)"
  by (simp add: uses_def set_dict_keys)

subsection \<open>The example graph, evaluated\<close>

lemma ex_args [simp]: "args opX = []" "args opA = [opX]" "args opB = [opX]" "args opC = [opA, opB]"
  by (simp_all add: opX_def opA_def opB_def opC_def ex_op_def)

lemma ex_ids [simp]: "op_id opX = 0" "op_id opA = 1" "op_id opB = 2" "op_id opC = 3"
  by (simp_all add: opX_def opA_def opB_def opC_def ex_op_def)

lemma ex_distinct [simp]:
  "opX \<noteq> opA" "opX \<noteq> opB" "opX \<noteq> opC" "opA \<noteq> opX" "opA \<noteq> opB" "opA \<noteq> opC"
  "opB \<noteq> opX" "opB \<noteq> opA" "opB \<noteq> opC" "opC \<noteq> opX" "opC \<noteq> opA" "opC \<noteq> opB"
  by (auto dest: arg_cong[where f = op_id])

definition ex_succ :: "Op adjacency" where
  "ex_succ = [(opC, []), (opA, [opC]), (opX, [opA, opB]), (opB, [opC])]"

lemma fill_one:
  "fill_successors [w] d
     = fold (\<lambda>v d'. fill_successors [v] (add_successor v w d')) (args w) (touch w d)"
  by (subst fill_successors.simps) (simp only: fill_successors.simps(1))

lemma fill_opX: "fill_successors [opX] d = touch opX d"
  by (subst fill_one) (simp del: fill_successors.simps)

lemma fill_opA: "fill_successors [opA] d = touch opX (add_successor opX opA (touch opA d))"
  by (subst fill_one) (simp del: fill_successors.simps add: fill_opX)

lemma fill_opB: "fill_successors [opB] d = touch opX (add_successor opX opB (touch opB d))"
  by (subst fill_one) (simp del: fill_successors.simps add: fill_opX)

lemma ex_successors: "successors ex_dfg = ex_succ"
  unfolding ex_dfg_def
  by (subst fill_one)
     (simp del: fill_successors.simps
        add: fill_opA fill_opB ex_succ_def touch_def add_successor_def set_add_def)

lemma ex_inputs: "inputs ex_succ = Inr [opX]"
  by (simp add: ex_succ_def inputs_def invert_def invert_add_def lookup_def set_add_def)

lemma ex_lookup [simp]: "lookup ex_succ opC = Inr []" "lookup ex_succ opA = Inr [opC]"
  "lookup ex_succ opB = Inr [opC]" "lookup ex_succ opX = Inr [opA, opB]"
  by (simp_all add: ex_succ_def lookup_def)

lemma vC: "opC \<notin> vis \<Longrightarrow>
    visit (Suc n) op_id ex_succ (#) opC (vis, s) = Some (Inr (insert opC vis, opC # s))"
  by simp

lemma vA: "opA \<notin> vis \<Longrightarrow> opC \<notin> vis \<Longrightarrow>
    visit (Suc (Suc n)) op_id ex_succ (#) opA (vis, s)
      = Some (Inr (insert opA (insert opC vis), opA # opC # s))"
  by (subst visit.simps) (simp del: visit.simps add: vC)

lemma vB: "opB \<notin> vis \<Longrightarrow> opC \<in> vis \<Longrightarrow>
    visit (Suc n) op_id ex_succ (#) opB (vis, s) = Some (Inr (insert opB vis, opB # s))"
  by (subst visit.simps) (simp del: visit.simps)

lemma vX: "visit (Suc (Suc (Suc n))) op_id ex_succ (#) opX ({}, [])
      = Some (Inr ({opX, opB, opA, opC}, [opX, opB, opA, opC]))"
  by (subst visit.simps) (simp del: visit.simps add: vA vB)

lemma ex_order: "instructions 4 ex_ops ex_dfg = Some (Inr [opX, opB, opA, opC])"
proof -
  have "visit 4 op_id ex_succ (#) opX ({}, [])
      = Some (Inr ({opX, opB, opA, opC}, [opX, opB, opA, opC]))"
    using vX [of 1] by (simp add: numeral_nat)
  then show ?thesis
    by (simp del: visit.simps
        add: instructions_def topsort_def dfs_def ex_inputs ex_successors ex_ops_def Op_ops_def)
qed

text \<open>
  Claim C5. When the instruction list of the graph is not empty, \<open>liveness\<close> returns a
  mapping, and for every instruction the tensor descriptions of its arguments are in its
  live set.
\<close>

theorem liveness_contains_uses:
  assumes ord: "instructions fuel A dfg = Some (Inr order)" and ne: "order \<noteq> []"
  shows "\<exists>l. liveness fuel A dfg = Some (Inr l) \<and>
     (\<forall>i \<in> set order. \<exists>s. lookup l i = Inr s \<and> n_td A ` set (n_args A i) \<subseteq> set s)"
proof -
  define l0 where "l0 = fold (\<lambda>op d. dict_set op ([]::TensorDescription list) d) order []"
  define init where "init = set_union (dict_keys (map (n_td A) (results dfg)))
     (dict_keys (map (n_td A)
        (filter (\<lambda>x. ''persistent'' \<in> set (n_tags A x)) (map fst (successors dfg)))))"
  define l1 where "l1 = dict_set (last order) init l0"
  define cps where "cps = rev (zip (tl order) (butlast order))"
  have d0: "dom (map_of l0) = set order" by (simp add: l0_def dom_fold_dict_set)
  have d1: "dom (map_of l1) = set order" using d0 ne by (auto simp: l1_def map_of_dict_set)
  have "c \<in> dom (map_of l1)" if "(c, p) \<in> set cps" for c p
  proof -
    from that have "c \<in> set (tl order)" by (auto simp: cps_def dest: set_zip_leftD)
    then have "c \<in> set order" by (cases order) simp_all
    then show ?thesis using d1 by simp
  qed
  then have "\<forall>(c, p) \<in> set cps. c \<in> dom (map_of l1)" by blast
  from liveness_step_fold[OF this, of A] obtain l2 where
    l2: "foldM (liveness_step A) cps l1 = Inr l2"
      "dom (map_of l2) = dom (map_of l1) \<union> snd ` set cps" by blast
  have "snd ` set cps \<subseteq> set order"
  proof
    fix p assume "p \<in> snd ` set cps"
    then obtain c where "(c, p) \<in> set cps" by auto
    then have "p \<in> set (butlast order)" by (auto simp: cps_def dest: set_zip_rightD)
    then show "p \<in> set order" by (rule in_set_butlastD)
  qed
  then have d2: "dom (map_of l2) = set order" using l2(2) d1 by auto
  then have "set order \<subseteq> dom (map_of l2)" by simp
  from liveness_inplace_fold[OF this, of A] obtain l3 where
    l3: "foldM (liveness_inplace A) order l2 = Inr l3"
      "\<forall>x \<in> set order. \<exists>s'. map_of l3 x = Some s' \<and> set (uses A x) \<subseteq> set s'" by blast
  have "liveness_of_order A dfg order = Inr l3"
    using py_index_last_elem[OF ne] l2(1) l3(1)
    by (simp add: liveness_of_order_def l0_def[symmetric] init_def[symmetric]
        l1_def[symmetric] cps_def[symmetric] Let_def)
  then have "liveness fuel A dfg = Some (Inr l3)" using ord by (simp add: liveness_def)
  moreover have "\<exists>s. lookup l3 i = Inr s \<and> n_td A ` set (n_args A i) \<subseteq> set s"
    if "i \<in> set order" for i
    using l3(2) that by (auto simp: lookup_map_of set_uses)
  ultimately show ?thesis by blast
qed

theorem liveness_contains_uses_witness:
  "\<exists>l. liveness 4 ex_ops ex_dfg = Some (Inr l) \<and>
     (\<exists>s. lookup l opC = Inr s \<and> tensor_description opA \<in> set s \<and>
        tensor_description opB \<in> set s)"
proof -
  have n: "[opX, opB, opA, opC] \<noteq> []" by simp
  from liveness_contains_uses[OF ex_order n] show ?thesis
    by (auto simp: ex_ops_def Op_ops_def)
qed

section \<open>The pipeline\<close>

lemma DataFlowGraph_init_empty:
  "DataFlowGraph_init [Transformer, Results []] = Inr \<lparr>successors = [], results = []\<rparr>"
  by (simp add: DataFlowGraph_init_def)

lemma liveness_empty:
  "liveness fuel A \<lparr>successors = [], results = []\<rparr> = Some (Inl IndexError)"
  by (simp add: liveness_def instructions_def topsort_def dfs_def inputs_def invert_def
      liveness_of_order_def py_index_def)

text \<open>
  Claim C3. With an empty result set and no fusion policy the graph has no node, the
  list of instructions is empty, and \<open>liveness\<close> reads \<open>order[-1]\<close>: \<open>assign_buffers\<close>
  raises \<open>IndexError\<close>, whatever the bound on the recursion depth and the store.
\<close>

theorem assign_buffers_empty:
  "assign_buffers fuel defs K [] None st = Some (Inl IndexError)"
  by (simp add: assign_buffers_def DataFlowGraph_init_empty allocate_def liveness_empty)

lemma KernelFlowGraph_init_TypeError:
  "KernelFlowGraph_init fuel dataflow fusible = Some (Inl TypeError)"
  by (simp add: KernelFlowGraph_init_def DataFlowGraph_init_def)

text \<open>
  Claim C2. With a fusion policy \<open>assign_buffers\<close> builds the \<open>KernelFlowGraph\<close>, whose
  constructor calls the constructor of \<open>DataFlowGraph\<close> with one argument instead of
  two: for every result set and every policy the call raises \<open>TypeError\<close>, and no
  fused graph is returned.
\<close>

theorem assign_buffers_fusible_TypeError:
  "assign_buffers fuel defs K rs (Some fusible) st = Some (Inl TypeError)"
  by (simp add: assign_buffers_def DataFlowGraph_init_def KernelFlowGraph_init_TypeError)

end
